theory Spec2Isabelle
  imports Main
begin

section \<open>The container \<open>circular_deque<Type, capacity>\<close>\<close>

text \<open>
  The class of \<^verbatim>\<open>circular_deque.h\<close> has four data members: \<open>count\<close>, \<open>back_index\<close>,
  \<open>front_index\<close> and \<open>array\<close>. The template parameter \<open>capacity\<close> is the first argument
  \<open>N\<close> of every function below; \<^verbatim>\<open>static_assert(capacity_value > 1)\<close> is the hypothesis
  \<open>1 < N\<close> of the theorems. \<open>size_type\<close> is modelled by \<open>nat\<close>: the asserted operations
  keep every index below \<open>N\<close> and \<open>count\<close> at most \<open>N\<close>, the only decrement
  (\<^verbatim>\<open>--this->count\<close>) is guarded by \<^verbatim>\<open>assert(!this->empty())\<close>, and \<open>N\<close> itself is a
  \<open>size_type\<close> value, so no operation wraps around.

  The field \<open>destroyed\<close> is not a member of the class. It records the explicit
  destructor calls \<^verbatim>\<open>this->array[k].~value_type()\<close>: the slot indices \<open>k\<close>, in the order
  of the calls. A destructor call ends the lifetime of the object in the slot. The model
  keeps the stored value of the slot as it is, which is what the call does for a
  trivially destructible element type only; for any other element type a slot that was
  destroyed after its last write holds no object. What is said below about the values
  in the array is therefore about the storage, and which objects have been destroyed is
  read from the log.
\<close>

record 'a circular_deque =
  count :: nat
  back_index :: nat
  front_index :: nat
  array :: "'a list"
  destroyed :: "nat list"

definition first_index :: nat where
  "first_index = 0"

definition last_index :: "nat \<Rightarrow> nat" where
  "last_index N = N - 1"

definition initial_back_index :: "nat \<Rightarrow> nat" where
  "initial_back_index N = N div 2"

definition initial_front_index :: "nat \<Rightarrow> nat" where
  "initial_front_index N = (N div 2) - 1"

text \<open>
  The default constructor: the member initialisers, and \<^verbatim>\<open>array {}\<close>, which gives every
  slot the value-initialised element \<open>dflt\<close>.
\<close>

definition circular_deque_init :: "nat \<Rightarrow> 'a \<Rightarrow> 'a circular_deque" where
  "circular_deque_init N dflt =
     \<lparr>count = 0, back_index = initial_back_index N, front_index = initial_front_index N,
      array = replicate N dflt, destroyed = []\<rparr>"

subsection \<open>Ring index arithmetic\<close>

text \<open>The four static helpers, which take the index as an argument.\<close>

definition previous_back_index :: "nat \<Rightarrow> nat \<Rightarrow> nat" where
  "previous_back_index N i = (if i > first_index then i - 1 else last_index N)"

definition next_back_index :: "nat \<Rightarrow> nat \<Rightarrow> nat" where
  "next_back_index N i = (if i < last_index N then i + 1 else first_index)"

definition previous_front_index :: "nat \<Rightarrow> nat \<Rightarrow> nat" where
  "previous_front_index N i = (if i < last_index N then i + 1 else first_index)"

definition next_front_index :: "nat \<Rightarrow> nat \<Rightarrow> nat" where
  "next_front_index N i = (if i > first_index then i - 1 else last_index N)"

text \<open>
  The member overloads without an argument, which apply the static helper to the
  object's own cursor (the prefix \<open>this_\<close> tells the two overloads apart).
\<close>

definition this_previous_back_index :: "nat \<Rightarrow> 'a circular_deque \<Rightarrow> nat" where
  "this_previous_back_index N d = previous_back_index N (back_index d)"

definition this_next_back_index :: "nat \<Rightarrow> 'a circular_deque \<Rightarrow> nat" where
  "this_next_back_index N d = next_back_index N (back_index d)"

definition this_previous_front_index :: "nat \<Rightarrow> 'a circular_deque \<Rightarrow> nat" where
  "this_previous_front_index N d = previous_front_index N (front_index d)"

definition this_next_front_index :: "nat \<Rightarrow> 'a circular_deque \<Rightarrow> nat" where
  "this_next_front_index N d = next_front_index N (front_index d)"

definition begin_index :: "nat \<Rightarrow> 'a circular_deque \<Rightarrow> nat" where
  "begin_index N d = this_previous_front_index N d"

definition end_index :: "nat \<Rightarrow> 'a circular_deque \<Rightarrow> nat" where
  "end_index N d = back_index d"

subsection \<open>Queries and element access\<close>

definition size_d :: "'a circular_deque \<Rightarrow> nat" where
  "size_d d = count d"

definition max_size :: "nat \<Rightarrow> nat" where
  "max_size N = N"

definition empty_d :: "'a circular_deque \<Rightarrow> bool" where
  "empty_d d = (size_d d = 0)"

definition full :: "nat \<Rightarrow> 'a circular_deque \<Rightarrow> bool" where
  "full N d = (size_d d = max_size N)"

text \<open>
  \<open>back()\<close> and \<open>front()\<close> are \<open>back_d\<close> and \<open>front_d\<close>, as \<open>size()\<close>, \<open>empty()\<close>,
  \<open>begin()\<close> and \<open>end()\<close> are \<open>size_d\<close>, \<open>empty_d\<close>, \<open>begin_d\<close> and \<open>end_d\<close>.
  A failed \<^verbatim>\<open>assert\<close> is the result \<open>None\<close>. The subscript \<^verbatim>\<open>this->array[k]\<close> is \<open>!\<close>
  for a read and a list update for a write; in a well-formed state (\<open>wellformed\<close> below,
  which every reachable state is) each subscript the operations use is below \<open>N\<close>, the
  length of the array.
\<close>

definition back_d :: "nat \<Rightarrow> 'a circular_deque \<Rightarrow> 'a option" where
  "back_d N d = (if empty_d d then None else Some (array d ! this_previous_back_index N d))"

definition front_d :: "nat \<Rightarrow> 'a circular_deque \<Rightarrow> 'a option" where
  "front_d N d = (if empty_d d then None else Some (array d ! this_previous_front_index N d))"

subsection \<open>Insertion and removal\<close>

text \<open>
  The copying and the moving overload of \<open>push_back\<close> (and of \<open>push_front\<close>) do the same
  to the container, so one function models both. The statements are kept in the
  source's order: the write, the cursor, the counter.
\<close>

definition push_back :: "nat \<Rightarrow> 'a \<Rightarrow> 'a circular_deque \<Rightarrow> 'a circular_deque option" where
  "push_back N v d =
     (if full N d then None
      else
        let d1 = d\<lparr>array := (array d)[back_index d := v]\<rparr>;
            d2 = d1\<lparr>back_index := this_next_back_index N d1\<rparr>;
            d3 = d2\<lparr>count := count d2 + 1\<rparr>
        in Some d3)"

definition push_front :: "nat \<Rightarrow> 'a \<Rightarrow> 'a circular_deque \<Rightarrow> 'a circular_deque option" where
  "push_front N v d =
     (if full N d then None
      else
        let d1 = d\<lparr>array := (array d)[front_index d := v]\<rparr>;
            d2 = d1\<lparr>front_index := this_next_front_index N d1\<rparr>;
            d3 = d2\<lparr>count := count d2 + 1\<rparr>
        in Some d3)"

text \<open>
  \<^verbatim>\<open>this->array[k].~value_type()\<close>: the destructor call on slot \<open>k\<close>, recorded in the log;
  the stored value stays (exact for a trivially destructible element type).
\<close>

definition destroy_slot :: "nat \<Rightarrow> 'a circular_deque \<Rightarrow> 'a circular_deque" where
  "destroy_slot k d = d\<lparr>destroyed := destroyed d @ [k]\<rparr>"

definition pop_back :: "nat \<Rightarrow> 'a circular_deque \<Rightarrow> 'a circular_deque option" where
  "pop_back N d =
     (if empty_d d then None
      else
        let d1 = destroy_slot (back_index d) d;
            d2 = d1\<lparr>back_index := this_previous_back_index N d1\<rparr>;
            d3 = d2\<lparr>count := count d2 - 1\<rparr>
        in Some d3)"

definition pop_front :: "nat \<Rightarrow> 'a circular_deque \<Rightarrow> 'a circular_deque option" where
  "pop_front N d =
     (if empty_d d then None
      else
        let d1 = destroy_slot (front_index d) d;
            d2 = d1\<lparr>front_index := this_previous_front_index N d1\<rparr>;
            d3 = d2\<lparr>count := count d2 - 1\<rparr>
        in Some d3)"

subsection \<open>\<open>clear\<close> and \<open>contains\<close>\<close>

text \<open>
  \<^verbatim>\<open>for (size_type index = from; index < bound; ++index) this->array[index].~value_type();\<close>
\<close>

function destroy_loop :: "nat \<Rightarrow> nat \<Rightarrow> 'a circular_deque \<Rightarrow> 'a circular_deque" where
  "destroy_loop index bound d =
     (if index < bound then destroy_loop (index + 1) bound (destroy_slot index d) else d)"
  by pat_completeness auto
termination
  by (relation "measure (\<lambda>(index, bound, d). bound - index)") auto

declare destroy_loop.simps [simp del]

definition clear :: "nat \<Rightarrow> 'a circular_deque \<Rightarrow> 'a circular_deque" where
  "clear N d =
     (let d1 =
        (if count d > 0 then
           let d2 =
             (if front_index d < back_index d
              then destroy_loop (front_index d) (back_index d) d
              else
                let d3 = destroy_loop (front_index d) N d
                in destroy_loop first_index (back_index d3) d3)
           in d2\<lparr>count := 0\<rparr>
         else d);
          d4 = d1\<lparr>back_index := initial_back_index N\<rparr>
      in d4\<lparr>front_index := initial_front_index N\<rparr>)"

text \<open>
  The search loop of \<open>contains\<close>, with its early return. The argument \<open>subscript\<close> is the
  index expression of the loop body as a function of the loop variable \<open>index\<close>: the
  first branch of \<open>contains\<close> reads \<^verbatim>\<open>this->array[index]\<close>, the second branch reads
  \<^verbatim>\<open>this->array[i]\<close>, where \<open>i\<close> is declared nowhere in the file. The undeclared \<open>i\<close> is a
  parameter of \<open>contains\<close>. The element type's \<^verbatim>\<open>operator==\<close> is HOL equality.
\<close>

function search_loop :: "nat \<Rightarrow> nat \<Rightarrow> (nat \<Rightarrow> nat) \<Rightarrow> 'a list \<Rightarrow> 'a \<Rightarrow> bool" where
  "search_loop index bound subscript arr v =
     (if index < bound
      then (if arr ! subscript index = v then True
            else search_loop (index + 1) bound subscript arr v)
      else False)"
  by pat_completeness auto
termination
  by (relation "measure (\<lambda>(index, bound, subscript, arr, v). bound - index)") auto

declare search_loop.simps [simp del]

definition contains :: "nat \<Rightarrow> nat \<Rightarrow> 'a \<Rightarrow> 'a circular_deque \<Rightarrow> bool" where
  "contains N i v d =
     (if empty_d d then False
      else if front_index d < back_index d
      then search_loop (front_index d) (back_index d) (\<lambda>index. index) (array d) v
      else if search_loop (front_index d) N (\<lambda>index. i) (array d) v then True
      else if search_loop first_index (back_index d) (\<lambda>index. i) (array d) v then True
      else False)"

section \<open>The iterator \<open>circular_deque_iterator<Type, capacity>\<close>\<close>

text \<open>
  The iterator holds a pointer to its owner and an index. A pointer is an address
  (\<open>nat\<close>), \<^verbatim>\<open>nullptr\<close> is \<open>None\<close>; \<open>begin_d\<close> and \<open>end_d\<close> take the address \<open>this\<close> of the
  container they are called on.
\<close>

record circular_deque_iterator =
  owner :: "nat option"
  index :: nat

definition iterator_default :: circular_deque_iterator where
  "iterator_default = \<lparr>owner = None, index = 0\<rparr>"

definition begin_d :: "nat \<Rightarrow> nat \<Rightarrow> 'a circular_deque \<Rightarrow> circular_deque_iterator" where
  "begin_d N this d = \<lparr>owner = Some this, index = begin_index N d\<rparr>"

definition end_d :: "nat \<Rightarrow> nat \<Rightarrow> 'a circular_deque \<Rightarrow> circular_deque_iterator" where
  "end_d N this d = \<lparr>owner = Some this, index = end_index N d\<rparr>"

text \<open>\<^verbatim>\<open>operator *\<close>, where \<open>d\<close> is the container the iterator's owner points to.\<close>

definition iterator_deref :: "'a circular_deque \<Rightarrow> circular_deque_iterator \<Rightarrow> 'a" where
  "iterator_deref d it = array d ! index it"

definition iterator_increment :: "nat \<Rightarrow> circular_deque_iterator \<Rightarrow> circular_deque_iterator" where
  "iterator_increment N it = it\<lparr>index := next_back_index N (index it)\<rparr>"

definition iterator_decrement :: "nat \<Rightarrow> circular_deque_iterator \<Rightarrow> circular_deque_iterator" where
  "iterator_decrement N it = it\<lparr>index := previous_back_index N (index it)\<rparr>"

definition iterator_eq :: "circular_deque_iterator \<Rightarrow> circular_deque_iterator \<Rightarrow> bool" where
  "iterator_eq a b = ((index a = index b) \<and> (owner a = owner b))"

definition iterator_neq :: "circular_deque_iterator \<Rightarrow> circular_deque_iterator \<Rightarrow> bool" where
  "iterator_neq a b = ((index a \<noteq> index b) \<or> (owner a \<noteq> owner b))"

text \<open>
  Forward iteration, the loop a caller writes over the half-open range:
  \<^verbatim>\<open>for (auto it = d.begin(); it != d.end(); ++it) visit(*it);\<close>
  The result is the list of the values visited, or \<open>None\<close> when the loop never reaches
  \<open>end()\<close>.
\<close>

partial_function (option) traverse ::
  "nat \<Rightarrow> 'a circular_deque \<Rightarrow> circular_deque_iterator \<Rightarrow> circular_deque_iterator \<Rightarrow> 'a list option"
where
  "traverse N d it stop =
     (if iterator_neq it stop
      then Option.bind (traverse N d (iterator_increment N it) stop)
             (\<lambda>rest. Some (iterator_deref d it # rest))
      else Some [])"

definition forward_iteration :: "nat \<Rightarrow> nat \<Rightarrow> 'a circular_deque \<Rightarrow> 'a list option" where
  "forward_iteration N this d = traverse N d (begin_d N this d) (end_d N this d)"

section \<open>Sequences of operations\<close>

datatype 'a operation = Push_back 'a | Push_front 'a | Pop_back | Pop_front | Clear

fun step :: "nat \<Rightarrow> 'a operation \<Rightarrow> 'a circular_deque \<Rightarrow> 'a circular_deque option" where
  "step N (Push_back v) d = push_back N v d"
| "step N (Push_front v) d = push_front N v d"
| "step N Pop_back d = pop_back N d"
| "step N Pop_front d = pop_front N d"
| "step N Clear d = Some (clear N d)"

text \<open>
  Running a sequence of calls stops with \<open>None\<close> at the first failed assertion. The
  reachable states of a \<open>circular_deque<Type, N>\<close> are the states
  \<open>run N ops (circular_deque_init N dflt) = Some d\<close>.
\<close>

fun run :: "nat \<Rightarrow> 'a operation list \<Rightarrow> 'a circular_deque \<Rightarrow> 'a circular_deque option" where
  "run N [] d = Some d"
| "run N (x # xs) d = (case step N x d of None \<Rightarrow> None | Some d' \<Rightarrow> run N xs d')"

text \<open>
  A sequence of pushes and pops respects the preconditions when, counting from \<open>n\<close>
  elements, no push comes when \<open>N\<close> elements are held and no pop comes when none is
  held. The count is kept by the sequence itself (one more for a push, one less for a
  pop), not read from the container.
\<close>

fun respects_preconditions :: "nat \<Rightarrow> nat \<Rightarrow> 'a operation list \<Rightarrow> bool" where
  "respects_preconditions N n [] = True"
| "respects_preconditions N n (Push_back v # ops) = (n < N \<and> respects_preconditions N (n + 1) ops)"
| "respects_preconditions N n (Push_front v # ops) = (n < N \<and> respects_preconditions N (n + 1) ops)"
| "respects_preconditions N n (Pop_back # ops) = (0 < n \<and> respects_preconditions N (n - 1) ops)"
| "respects_preconditions N n (Pop_front # ops) = (0 < n \<and> respects_preconditions N (n - 1) ops)"
| "respects_preconditions N n (Clear # ops) = False"

section \<open>Well-formed states and the live window\<close>

text \<open>
  The class invariant: the array has its \<open>N\<close> slots, both cursors are indices of it,
  at most \<open>N\<close> elements are counted, and the back cursor stands \<open>count + 1\<close> ring steps
  after the front cursor.
\<close>

definition wellformed :: "nat \<Rightarrow> 'a circular_deque \<Rightarrow> bool" where
  "wellformed N d =
     (length (array d) = N \<and> back_index d < N \<and> front_index d < N \<and> count d \<le> N \<and>
      back_index d = (front_index d + 1 + count d) mod N)"

text \<open>
  The slots an iterator passes in \<open>k\<close> increments from slot \<open>i\<close>. The live slots are the
  \<open>count\<close> slots from \<open>begin_index\<close> on, front to back: the first is the slot \<open>front()\<close>
  reads, the last the slot \<open>back()\<close> reads (\<open>live_slots_hd\<close>, \<open>live_slots_last\<close>), and
  their values are the surviving pushes in order (\<open>run_contents\<close>).
\<close>

fun ring_walk :: "nat \<Rightarrow> nat \<Rightarrow> nat \<Rightarrow> nat list" where
  "ring_walk N i 0 = []"
| "ring_walk N i (Suc k) = i # ring_walk N (next_back_index N i) k"

definition live_slots :: "nat \<Rightarrow> 'a circular_deque \<Rightarrow> nat list" where
  "live_slots N d = ring_walk N (begin_index N d) (count d)"

definition contents :: "nat \<Rightarrow> 'a circular_deque \<Rightarrow> 'a list" where
  "contents N d = map (\<lambda>k. array d ! k) (live_slots N d)"

text \<open>
  The sequence a double-ended queue holds after a sequence of calls, front to back:
  the reference the container is compared with.
\<close>

fun deque_model :: "'a operation list \<Rightarrow> 'a list \<Rightarrow> 'a list" where
  "deque_model [] xs = xs"
| "deque_model (Push_back v # ops) xs = deque_model ops (xs @ [v])"
| "deque_model (Push_front v # ops) xs = deque_model ops (v # xs)"
| "deque_model (Pop_back # ops) xs = deque_model ops (butlast xs)"
| "deque_model (Pop_front # ops) xs = deque_model ops (tl xs)"
| "deque_model (Clear # ops) xs = deque_model ops []"

definition is_push :: "'a operation \<Rightarrow> bool" where
  "is_push x = (case x of Push_back v \<Rightarrow> True | Push_front v \<Rightarrow> True | _ \<Rightarrow> False)"

definition is_pop :: "'a operation \<Rightarrow> bool" where
  "is_pop x = (case x of Pop_back \<Rightarrow> True | Pop_front \<Rightarrow> True | _ \<Rightarrow> False)"

definition pushes :: "'a operation list \<Rightarrow> nat" where
  "pushes ops = length (filter is_push ops)"

definition pops :: "'a operation list \<Rightarrow> nat" where
  "pops ops = length (filter is_pop ops)"

section \<open>Ring arithmetic\<close>

lemma next_back_index_mod: "i < N \<Longrightarrow> next_back_index N i = (i + 1) mod N"
proof (cases "i < N - 1")
  case True
  then show ?thesis
    by (simp add: next_back_index_def last_index_def)
next
  case False
  assume "i < N"
  with False have "i + 1 = N" by arith
  with False show ?thesis
    by (simp add: next_back_index_def last_index_def first_index_def)
qed

lemma previous_back_index_mod: "i < N \<Longrightarrow> previous_back_index N i = (i + (N - 1)) mod N"
proof (cases "0 < i")
  case True
  assume lt: "i < N"
  from True lt have e: "i + (N - 1) = (i - 1) + N" by arith
  have "((i - 1) + N) mod N = i - 1" using lt by simp
  with e have "(i + (N - 1)) mod N = i - 1" by (simp only:)
  with True show ?thesis
    by (simp only: previous_back_index_def first_index_def if_True)
next
  case False
  assume "i < N"
  with False show ?thesis
    by (simp add: previous_back_index_def first_index_def last_index_def)
qed

lemma ring_next: "b = a mod N \<Longrightarrow> 0 < N \<Longrightarrow> next_back_index N b = (a + 1) mod N"
  by (simp add: next_back_index_mod mod_Suc_eq)

lemma ring_previous:
  assumes "b = a mod N" "0 < N"
  shows "previous_back_index N b = (a + (N - 1)) mod N"
proof -
  from assms have "b < N" by simp
  then have "previous_back_index N b = (b + (N - 1)) mod N"
    by (rule previous_back_index_mod)
  also have "\<dots> = (a + (N - 1)) mod N"
    unfolding assms(1) by (rule mod_add_left_eq)
  finally show ?thesis .
qed

lemma front_helpers:
  "previous_front_index N i = next_back_index N i" "next_front_index N i = previous_back_index N i"
  by (simp_all add: previous_front_index_def next_back_index_def next_front_index_def previous_back_index_def)

lemma wf_init: "1 < N \<Longrightarrow> wellformed N (circular_deque_init N dflt)"
  by (auto simp: wellformed_def circular_deque_init_def initial_back_index_def initial_front_index_def)

lemma wf_push_back: 
  assumes "wellformed N d" "push_back N v d = Some d'"
  shows "wellformed N d'"
proof -
  from assms have nf: "count d < N" and N: "0 < N"
    by (auto simp: wellformed_def push_back_def full_def size_d_def max_size_def split: if_splits)
  from assms have d': "d' = d\<lparr>array := (array d)[back_index d := v], back_index := next_back_index N (back_index d), count := count d + 1\<rparr>"
    by (auto simp: push_back_def Let_def this_next_back_index_def split: if_splits)
  from assms(1) have b: "back_index d = (front_index d + 1 + count d) mod N"
    by (simp add: wellformed_def)
  have "next_back_index N (back_index d) = (front_index d + 1 + count d + 1) mod N"
    by (rule ring_next[OF b N])
  with assms(1) nf N show ?thesis
    by (simp add: wellformed_def d')
qed

lemma wf_push_front: 
  assumes "wellformed N d" "push_front N v d = Some d'"
  shows "wellformed N d'"
proof -
  from assms have nf: "count d < N" and N: "0 < N"
    by (auto simp: wellformed_def push_front_def full_def size_d_def max_size_def split: if_splits)
  from assms have d': "d' = d\<lparr>array := (array d)[front_index d := v], front_index := previous_back_index N (front_index d), count := count d + 1\<rparr>"
    by (auto simp: push_front_def Let_def this_next_front_index_def front_helpers split: if_splits)
  from assms(1) have b: "back_index d = (front_index d + 1 + count d) mod N" and f: "front_index d < N"
    by (simp_all add: wellformed_def)
  have "(previous_back_index N (front_index d) + 1 + (count d + 1)) mod N
      = ((front_index d + (N - 1)) mod N + (count d + 2)) mod N"
    by (simp add: previous_back_index_mod[OF f])
  also have "\<dots> = (front_index d + (N - 1) + (count d + 2)) mod N"
    by (simp only: mod_add_left_eq)
  also have "front_index d + (N - 1) + (count d + 2) = (front_index d + 1 + count d) + N"
    using N by arith
  also have "(front_index d + 1 + count d + N) mod N = (front_index d + 1 + count d) mod N"
    by (rule mod_add_self2)
  finally have "back_index d = (previous_back_index N (front_index d) + 1 + (count d + 1)) mod N"
    using b by simp
  moreover have "previous_back_index N (front_index d) < N"
    using N by (simp add: previous_back_index_mod[OF f])
  ultimately show ?thesis using assms(1) nf
    by (simp add: wellformed_def d')
qed

lemma wf_pop_back: 
  assumes "wellformed N d" "pop_back N d = Some d'"
  shows "wellformed N d'"
proof -
  from assms have ne: "0 < count d" and N: "0 < N"
    by (auto simp: wellformed_def pop_back_def empty_d_def size_d_def split: if_splits)
  from assms have d': "d' = d\<lparr>destroyed := destroyed d @ [back_index d], back_index := previous_back_index N (back_index d), count := count d - 1\<rparr>"
    by (auto simp: pop_back_def Let_def this_previous_back_index_def destroy_slot_def split: if_splits)
  from assms(1) have b: "back_index d = (front_index d + 1 + count d) mod N"
    by (simp add: wellformed_def)
  have "previous_back_index N (back_index d) = (front_index d + 1 + count d + (N - 1)) mod N"
    by (rule ring_previous[OF b N])
  also have "front_index d + 1 + count d + (N - 1) = (front_index d + 1 + (count d - 1)) + N"
    using N ne by arith
  also have "(front_index d + 1 + (count d - 1) + N) mod N = (front_index d + 1 + (count d - 1)) mod N"
    by (rule mod_add_self2)
  finally have "previous_back_index N (back_index d) = (front_index d + 1 + (count d - 1)) mod N" .
  with assms(1) N show ?thesis
    by (auto simp: wellformed_def d')
qed

lemma wf_pop_front: 
  assumes "wellformed N d" "pop_front N d = Some d'"
  shows "wellformed N d'"
proof -
  from assms have ne: "0 < count d" and N: "0 < N"
    by (auto simp: wellformed_def pop_front_def empty_d_def size_d_def split: if_splits)
  from assms have d': "d' = d\<lparr>destroyed := destroyed d @ [front_index d], front_index := next_back_index N (front_index d), count := count d - 1\<rparr>"
    by (auto simp: pop_front_def Let_def this_previous_front_index_def destroy_slot_def front_helpers split: if_splits)
  from assms(1) have b: "back_index d = (front_index d + 1 + count d) mod N" and f: "front_index d < N"
    by (simp_all add: wellformed_def)
  have "(next_back_index N (front_index d) + 1 + (count d - 1)) mod N
      = ((front_index d + 1) mod N + count d) mod N"
    using ne by (simp add: next_back_index_mod[OF f])
  also have "\<dots> = (front_index d + 1 + count d) mod N"
    by (simp only: mod_add_left_eq)
  finally have "back_index d = (next_back_index N (front_index d) + 1 + (count d - 1)) mod N"
    using b by simp
  moreover have "next_back_index N (front_index d) < N"
    using N by (simp add: next_back_index_mod[OF f])
  ultimately show ?thesis using assms(1)
    by (auto simp: wellformed_def d')
qed

lemma destroy_loop_fields:
  "count (destroy_loop i b d) = count d \<and> back_index (destroy_loop i b d) = back_index d
   \<and> front_index (destroy_loop i b d) = front_index d \<and> array (destroy_loop i b d) = array d
   \<and> destroyed (destroy_loop i b d) = destroyed d @ [i..<b]"
proof (induction i b d rule: destroy_loop.induct)
  case (1 index bound d)
  show ?case
  proof (cases "index < bound")
    case True
    with 1 show ?thesis
      by (subst (1 2 3 4 5) destroy_loop.simps) (simp add: destroy_slot_def upt_conv_Cons)
  next
    case False
    then show ?thesis by (subst (1 2 3 4 5) destroy_loop.simps) simp
  qed
qed

lemma wf_clear:
  assumes "1 < N" "length (array d) = N"
  shows "wellformed N (clear N d)"
proof -
  from assms(1) have "N div 2 < N" "N div 2 - 1 < N" "(N div 2 - 1 + 1) mod N = N div 2"
    by auto
  with assms(2) show ?thesis
    by (simp add: clear_def Let_def wellformed_def destroy_loop_fields initial_back_index_def initial_front_index_def)
qed

subsection \<open>Every reachable state is well-formed\<close>

lemma step_wellformed:
  assumes "1 < N" "wellformed N d" "step N x d = Some d'"
  shows "wellformed N d'"
proof (cases x)
  case (Push_back v)
  with assms show ?thesis by (simp add: wf_push_back)
next
  case (Push_front v)
  with assms show ?thesis by (simp add: wf_push_front)
next
  case Pop_back
  with assms show ?thesis by (simp add: wf_pop_back)
next
  case Pop_front
  with assms show ?thesis by (simp add: wf_pop_front)
next
  case Clear
  with assms have "d' = clear N d" and "length (array d) = N"
    by (auto simp: wellformed_def)
  with assms(1) show ?thesis by (simp add: wf_clear)
qed

lemma run_wellformed_from:
  "1 < N \<Longrightarrow> wellformed N d \<Longrightarrow> run N ops d = Some d' \<Longrightarrow> wellformed N d'"
proof (induction ops arbitrary: d)
  case Nil
  then show ?case by simp
next
  case (Cons x xs)
  from Cons.prems(3) obtain d1 where s: "step N x d = Some d1" and r: "run N xs d1 = Some d'"
    by (auto split: option.splits)
  from Cons.prems(1,2) s have "wellformed N d1" by (rule step_wellformed)
  with Cons.IH Cons.prems(1) r show ?case by blast
qed

lemma run_wellformed:
  assumes "1 < N" "run N ops (circular_deque_init N dflt) = Some d"
  shows "wellformed N d"
  by (rule run_wellformed_from[OF assms(1) wf_init[OF assms(1)] assms(2)])

subsection \<open>The operations in closed form\<close>

lemma push_back_eq:
  "\<not> full N d \<Longrightarrow> push_back N v d =
     Some (d\<lparr>array := (array d)[back_index d := v],
             back_index := next_back_index N (back_index d), count := count d + 1\<rparr>)"
  by (simp add: push_back_def Let_def this_next_back_index_def)

lemma push_front_eq:
  "\<not> full N d \<Longrightarrow> push_front N v d =
     Some (d\<lparr>array := (array d)[front_index d := v],
             front_index := next_front_index N (front_index d), count := count d + 1\<rparr>)"
  by (simp add: push_front_def Let_def this_next_front_index_def)

lemma pop_back_eq:
  "\<not> empty_d d \<Longrightarrow> pop_back N d =
     Some (d\<lparr>destroyed := destroyed d @ [back_index d],
             back_index := previous_back_index N (back_index d), count := count d - 1\<rparr>)"
  by (simp add: pop_back_def Let_def this_previous_back_index_def destroy_slot_def)

lemma pop_front_eq:
  "\<not> empty_d d \<Longrightarrow> pop_front N d =
     Some (d\<lparr>destroyed := destroyed d @ [front_index d],
             front_index := previous_front_index N (front_index d), count := count d - 1\<rparr>)"
  by (simp add: pop_front_def Let_def this_previous_front_index_def destroy_slot_def)

subsection \<open>Walking the ring\<close>

lemma next_back_index_less: "0 < N \<Longrightarrow> i < N \<Longrightarrow> next_back_index N i < N"
  by (simp add: next_back_index_mod)

lemma ring_walk_length: "length (ring_walk N i k) = k"
  by (induction k arbitrary: i) simp_all

lemma ring_walk_nth:
  "0 < N \<Longrightarrow> i < N \<Longrightarrow> j < k \<Longrightarrow> ring_walk N i k ! j = (i + j) mod N"
proof (induction k arbitrary: i j)
  case 0
  then show ?case by simp
next
  case (Suc k)
  show ?case
  proof (cases j)
    case 0
    with Suc.prems show ?thesis by simp
  next
    case (Suc j')
    with Suc.prems have "j' < k" by simp
    from Suc.prems have n: "next_back_index N i < N" by (simp add: next_back_index_less)
    have "ring_walk N (next_back_index N i) k ! j' = (next_back_index N i + j') mod N"
      using Suc.IH[OF Suc.prems(1) n \<open>j' < k\<close>] .
    also have "\<dots> = ((i + 1) mod N + j') mod N"
      using Suc.prems by (simp add: next_back_index_mod)
    also have "\<dots> = (i + 1 + j') mod N"
      by (rule mod_add_left_eq)
    finally show ?thesis using \<open>j = Suc j'\<close> by simp
  qed
qed

lemma ring_walk_snoc:
  "0 < N \<Longrightarrow> i < N \<Longrightarrow> ring_walk N i (Suc k) = ring_walk N i k @ [(i + k) mod N]"
proof (induction k arbitrary: i)
  case 0
  then show ?case by simp
next
  case (Suc k)
  from Suc.prems have n: "next_back_index N i < N" by (simp add: next_back_index_less)
  have "(next_back_index N i + k) mod N = ((i + 1) mod N + k) mod N"
    using Suc.prems by (simp add: next_back_index_mod)
  also have "\<dots> = (i + 1 + k) mod N" by (rule mod_add_left_eq)
  finally have e: "(next_back_index N i + k) mod N = (i + Suc k) mod N" by simp
  have "ring_walk N i (Suc (Suc k)) = i # ring_walk N (next_back_index N i) (Suc k)"
    by simp
  also have "\<dots> = i # (ring_walk N (next_back_index N i) k @ [(next_back_index N i + k) mod N])"
    using Suc.IH[OF Suc.prems(1) n] by simp
  finally show ?case using e by simp
qed

lemma ring_mod_neq:
  assumes "j < k" "k < N"
  shows "(i + j) mod N \<noteq> (i + k) mod (N::nat)"
proof
  assume "(i + j) mod N = (i + k) mod N"
  then have "(i + k) mod N = (i + j) mod N" by simp
  moreover have "i + j \<le> i + k" using assms by simp
  ultimately have "N dvd (i + k) - (i + j)"
    by (simp add: mod_eq_dvd_iff_nat)
  then have "N dvd k - j" by simp
  moreover have "0 < k - j" "k - j < N" using assms by auto
  ultimately show False by (auto dest: dvd_imp_le)
qed

lemma ring_walk_set:
  assumes "0 < N" "i < N"
  shows "set (ring_walk N i k) = (\<lambda>j. (i + j) mod N) ` {..<k}"
proof -
  have "set (ring_walk N i k) = (\<lambda>j. ring_walk N i k ! j) ` {..<k}"
    by (auto simp: set_conv_nth ring_walk_length)
  also have "\<dots> = (\<lambda>j. (i + j) mod N) ` {..<k}"
    using assms by (intro image_cong) (simp_all add: ring_walk_nth)
  finally show ?thesis .
qed

lemma ring_walk_fresh:
  assumes "0 < N" "i < N" "k < N"
  shows "(i + k) mod N \<notin> set (ring_walk N i k)"
proof
  assume "(i + k) mod N \<in> set (ring_walk N i k)"
  then obtain j where "j < k" "(i + k) mod N = (i + j) mod N"
    using assms by (auto simp: ring_walk_set)
  with ring_mod_neq[of j k N i] assms(3) show False by simp
qed

lemma ring_walk_distinct:
  "0 < N \<Longrightarrow> i < N \<Longrightarrow> k \<le> N \<Longrightarrow> distinct (ring_walk N i k)"
proof (induction k)
  case 0
  then show ?case by simp
next
  case (Suc k)
  then have "k < N" by simp
  with Suc show ?case
    by (simp add: ring_walk_snoc ring_walk_fresh del: ring_walk.simps)
qed

subsection \<open>Evaluation of concrete runs\<close>

lemmas ring_defs =
  first_index_def last_index_def initial_back_index_def initial_front_index_def
  previous_back_index_def next_back_index_def previous_front_index_def next_front_index_def
  this_previous_back_index_def this_next_back_index_def this_previous_front_index_def
  this_next_front_index_def begin_index_def end_index_def

lemmas deque_defs =
  circular_deque_init_def size_d_def max_size_def empty_d_def full_def back_d_def front_d_def
  push_back_def push_front_def pop_back_def pop_front_def destroy_slot_def Let_def

lemma replicate_numeral_Cons: "replicate (numeral k) x = x # replicate (pred_numeral k) x"
  by (simp add: numeral_eq_Suc)

lemmas iterator_defs =
  forward_iteration_def begin_d_def end_d_def iterator_neq_def iterator_eq_def
  iterator_increment_def iterator_decrement_def iterator_deref_def

subsection \<open>Counting pushes and pops\<close>

lemma step_count:
  assumes "step N x d = Some d'" "x \<noteq> Clear"
  shows "int (count d') = int (count d) + (if is_push x then 1 else 0) - (if is_pop x then 1 else 0)"
proof (cases x)
  case (Push_back v)
  with assms show ?thesis
    by (auto simp: push_back_def Let_def is_push_def is_pop_def split: if_splits)
next
  case (Push_front v)
  with assms show ?thesis
    by (auto simp: push_front_def Let_def is_push_def is_pop_def split: if_splits)
next
  case Pop_back
  with assms show ?thesis
    by (auto simp: pop_back_def Let_def destroy_slot_def empty_d_def size_d_def is_push_def is_pop_def
        split: if_splits)
next
  case Pop_front
  with assms show ?thesis
    by (auto simp: pop_front_def Let_def destroy_slot_def empty_d_def size_d_def is_push_def is_pop_def
        split: if_splits)
next
  case Clear
  with assms show ?thesis by simp
qed

lemma run_count:
  "run N ops d = Some d' \<Longrightarrow> Clear \<notin> set ops \<Longrightarrow>
   int (count d') = int (count d) + int (pushes ops) - int (pops ops)"
proof (induction ops arbitrary: d)
  case Nil
  then show ?case by (simp add: pushes_def pops_def)
next
  case (Cons x xs)
  from Cons.prems(1) obtain d1 where s: "step N x d = Some d1" and r: "run N xs d1 = Some d'"
    by (auto split: option.splits)
  from Cons.prems(2) have nc: "x \<noteq> Clear" "Clear \<notin> set xs" by auto
  from Cons.IH[OF r nc(2)] step_count[OF s nc(1)] show ?case
    by (simp add: pushes_def pops_def)
qed

text \<open>
  A sequence that respects the preconditions runs without a failed assertion, and a
  sequence of pushes and pops that runs without one respects them.
\<close>

lemma respects_take:
  "respects_preconditions N n ops \<Longrightarrow> respects_preconditions N n (take k ops)"
proof (induction ops arbitrary: n k)
  case Nil
  then show ?case by simp
next
  case (Cons x xs)
  show ?case
  proof (cases k)
    case 0
    then show ?thesis by simp
  next
    case (Suc k')
    with Cons show ?thesis by (cases x) simp_all
  qed
qed

lemma respects_no_clear: "respects_preconditions N n ops \<Longrightarrow> Clear \<notin> set ops"
proof (induction ops arbitrary: n)
  case Nil
  then show ?case by simp
next
  case (Cons x xs)
  then show ?case by (cases x) auto
qed

lemma run_respects:
  "respects_preconditions N (count d) ops \<Longrightarrow> \<exists>d'. run N ops d = Some d'"
proof (induction ops arbitrary: d)
  case Nil
  then show ?case by simp
next
  case (Cons x xs)
  show ?case
  proof (cases x)
    case (Push_back v)
    with Cons.prems have nf: "\<not> full N d" and r: "respects_preconditions N (count d + 1) xs"
      by (simp_all add: full_def size_d_def max_size_def)
    define d1 where "d1 = d\<lparr>array := (array d)[back_index d := v],
      back_index := next_back_index N (back_index d), count := count d + 1\<rparr>"
    have s: "push_back N v d = Some d1"
      unfolding d1_def using nf by (rule push_back_eq)
    have "count d1 = count d + 1" by (simp add: d1_def)
    with r Cons.IH[of d1] obtain d' where "run N xs d1 = Some d'" by auto
    with s Push_back show ?thesis by simp
  next
    case (Push_front v)
    with Cons.prems have nf: "\<not> full N d" and r: "respects_preconditions N (count d + 1) xs"
      by (simp_all add: full_def size_d_def max_size_def)
    define d1 where "d1 = d\<lparr>array := (array d)[front_index d := v],
      front_index := next_front_index N (front_index d), count := count d + 1\<rparr>"
    have s: "push_front N v d = Some d1"
      unfolding d1_def using nf by (rule push_front_eq)
    have "count d1 = count d + 1" by (simp add: d1_def)
    with r Cons.IH[of d1] obtain d' where "run N xs d1 = Some d'" by auto
    with s Push_front show ?thesis by simp
  next
    case Pop_back
    with Cons.prems have ne: "\<not> empty_d d" and r: "respects_preconditions N (count d - 1) xs"
      by (simp_all add: empty_d_def size_d_def)
    define d1 where "d1 = d\<lparr>destroyed := destroyed d @ [back_index d],
      back_index := previous_back_index N (back_index d), count := count d - 1\<rparr>"
    have s: "pop_back N d = Some d1"
      unfolding d1_def using ne by (rule pop_back_eq)
    have "count d1 = count d - 1" by (simp add: d1_def)
    with r Cons.IH[of d1] obtain d' where "run N xs d1 = Some d'" by auto
    with s Pop_back show ?thesis by simp
  next
    case Pop_front
    with Cons.prems have ne: "\<not> empty_d d" and r: "respects_preconditions N (count d - 1) xs"
      by (simp_all add: empty_d_def size_d_def)
    define d1 where "d1 = d\<lparr>destroyed := destroyed d @ [front_index d],
      front_index := previous_front_index N (front_index d), count := count d - 1\<rparr>"
    have s: "pop_front N d = Some d1"
      unfolding d1_def using ne by (rule pop_front_eq)
    have "count d1 = count d - 1" by (simp add: d1_def)
    with r Cons.IH[of d1] obtain d' where "run N xs d1 = Some d'" by auto
    with s Pop_front show ?thesis by simp
  next
    case Clear
    with Cons.prems show ?thesis by simp
  qed
qed

lemma run_Some_respects:
  "run N ops d = Some d' \<Longrightarrow> Clear \<notin> set ops \<Longrightarrow> count d \<le> N \<Longrightarrow>
   respects_preconditions N (count d) ops"
proof (induction ops arbitrary: d)
  case Nil
  then show ?case by simp
next
  case (Cons x xs)
  from Cons.prems(1) obtain d1 where s: "step N x d = Some d1" and r: "run N xs d1 = Some d'"
    by (auto split: option.splits)
  from Cons.prems(2) have nc: "x \<noteq> Clear" "Clear \<notin> set xs" by auto
  show ?case
  proof (cases x)
    case (Push_back v)
    with s Cons.prems(3) have "count d < N" "count d1 = count d + 1"
      by (auto simp: push_back_def Let_def full_def size_d_def max_size_def split: if_splits)
    with Cons.IH[OF r nc(2)] Push_back show ?thesis by simp
  next
    case (Push_front v)
    with s Cons.prems(3) have "count d < N" "count d1 = count d + 1"
      by (auto simp: push_front_def Let_def full_def size_d_def max_size_def split: if_splits)
    with Cons.IH[OF r nc(2)] Push_front show ?thesis by simp
  next
    case Pop_back
    with s Cons.prems(3) have "0 < count d" "count d1 = count d - 1"
      by (auto simp: pop_back_def Let_def destroy_slot_def empty_d_def size_d_def split: if_splits)
    with Cons.IH[OF r nc(2)] Cons.prems(3) Pop_back show ?thesis by simp
  next
    case Pop_front
    with s Cons.prems(3) have "0 < count d" "count d1 = count d - 1"
      by (auto simp: pop_front_def Let_def destroy_slot_def empty_d_def size_d_def split: if_splits)
    with Cons.IH[OF r nc(2)] Cons.prems(3) Pop_front show ?thesis by simp
  next
    case Clear
    with nc show ?thesis by simp
  qed
qed

subsection \<open>The live window under the operations\<close>

lemma next_previous_back_index: "i < N \<Longrightarrow> next_back_index N (previous_back_index N i) = i"
  by (auto simp: next_back_index_def previous_back_index_def first_index_def last_index_def)

lemma previous_next_back_index: "i < N \<Longrightarrow> previous_back_index N (next_back_index N i) = i"
  by (auto simp: next_back_index_def previous_back_index_def first_index_def last_index_def)

lemma begin_index_eq: "begin_index N d = next_back_index N (front_index d)"
  by (simp add: begin_index_def this_previous_front_index_def front_helpers)

lemma wf_positive: "wellformed N d \<Longrightarrow> 0 < N"
  by (auto simp: wellformed_def)

lemma wf_begin_less: "wellformed N d \<Longrightarrow> begin_index N d < N"
  by (simp add: begin_index_eq wellformed_def next_back_index_less)

lemma wf_back_from_begin:
  assumes "wellformed N d"
  shows "back_index d = (begin_index N d + count d) mod N"
proof -
  from assms have f: "front_index d < N" and b: "back_index d = (front_index d + 1 + count d) mod N"
    by (simp_all add: wellformed_def)
  have "(begin_index N d + count d) mod N = ((front_index d + 1) mod N + count d) mod N"
    by (simp add: begin_index_eq next_back_index_mod[OF f])
  also have "\<dots> = (front_index d + 1 + count d) mod N"
    by (rule mod_add_left_eq)
  finally show ?thesis using b by simp
qed

lemma contents_push_back:
  assumes "wellformed N d" "push_back N v d = Some d'"
  shows "contents N d' = contents N d @ [v]"
proof -
  from assms have nf: "\<not> full N d" and c: "count d < N"
    by (auto simp: wellformed_def push_back_def full_def size_d_def max_size_def split: if_splits)
  from assms(2) nf have d': "d' = d\<lparr>array := (array d)[back_index d := v],
      back_index := next_back_index N (back_index d), count := count d + 1\<rparr>"
    by (simp add: push_back_eq)
  have N: "0 < N" and b: "begin_index N d < N"
    using assms(1) by (rule wf_positive, rule wf_begin_less)
  have bk: "back_index d = (begin_index N d + count d) mod N"
    using assms(1) by (rule wf_back_from_begin)
  have len: "back_index d < length (array d)"
    using assms(1) by (simp add: wellformed_def)
  have "begin_index N d' = begin_index N d"
    by (simp add: d' begin_index_eq)
  then have ls: "live_slots N d' = live_slots N d @ [back_index d]"
    using ring_walk_snoc[OF N b, of "count d"] bk by (simp add: live_slots_def d')
  have fresh: "back_index d \<notin> set (live_slots N d)"
    unfolding live_slots_def bk by (rule ring_walk_fresh[OF N b c])
  have arr: "array d' = (array d)[back_index d := v]"
    by (simp add: d')
  have m: "map (\<lambda>k. array d' ! k) (live_slots N d) = contents N d"
    unfolding arr contents_def using fresh by (intro map_cong refl nth_list_update_neq) auto
  have e: "array d' ! back_index d = v"
    using len by (simp add: arr)
  show ?thesis
    unfolding contents_def[of N d'] ls using m e by simp
qed

lemma contents_push_front:
  assumes "wellformed N d" "push_front N v d = Some d'"
  shows "contents N d' = v # contents N d"
proof -
  from assms have nf: "\<not> full N d" and c: "count d < N"
    by (auto simp: wellformed_def push_front_def full_def size_d_def max_size_def split: if_splits)
  from assms(2) nf have d': "d' = d\<lparr>array := (array d)[front_index d := v],
      front_index := previous_back_index N (front_index d), count := count d + 1\<rparr>"
    by (simp add: push_front_eq front_helpers)
  have N: "0 < N" using assms(1) by (rule wf_positive)
  have f: "front_index d < N" and len: "front_index d < length (array d)"
    using assms(1) by (simp_all add: wellformed_def)
  have "begin_index N d' = front_index d"
    by (simp add: d' begin_index_eq next_previous_back_index[OF f])
  then have ls: "live_slots N d' = front_index d # live_slots N d"
    by (simp add: live_slots_def d' begin_index_eq)
  have "distinct (ring_walk N (front_index d) (Suc (count d)))"
    using N f c by (intro ring_walk_distinct) simp_all
  then have fresh: "front_index d \<notin> set (live_slots N d)"
    by (simp add: live_slots_def begin_index_eq)
  have arr: "array d' = (array d)[front_index d := v]"
    by (simp add: d')
  have m: "map (\<lambda>k. array d' ! k) (live_slots N d) = contents N d"
    unfolding arr contents_def using fresh by (intro map_cong refl nth_list_update_neq) auto
  have e: "array d' ! front_index d = v"
    using len by (simp add: arr)
  show ?thesis
    unfolding contents_def[of N d'] ls using m e by simp
qed

lemma contents_pop_back:
  assumes "wellformed N d" "pop_back N d = Some d'"
  shows "contents N d' = butlast (contents N d)"
proof -
  from assms(2) have ne: "\<not> empty_d d"
    by (auto simp: pop_back_def split: if_splits)
  then obtain k where k: "count d = Suc k"
    by (cases "count d") (auto simp: empty_d_def size_d_def)
  from assms(2) ne have d': "d' = d\<lparr>destroyed := destroyed d @ [back_index d],
      back_index := previous_back_index N (back_index d), count := count d - 1\<rparr>"
    by (simp add: pop_back_eq)
  have N: "0 < N" and b: "begin_index N d < N"
    using assms(1) by (rule wf_positive, rule wf_begin_less)
  have "live_slots N d = live_slots N d' @ [(begin_index N d + k) mod N]"
    using ring_walk_snoc[OF N b, of k] by (simp add: live_slots_def d' k begin_index_eq)
  then show ?thesis
    by (simp add: contents_def d')
qed

lemma contents_pop_front:
  assumes "wellformed N d" "pop_front N d = Some d'"
  shows "contents N d' = tl (contents N d)"
proof -
  from assms(2) have ne: "\<not> empty_d d"
    by (auto simp: pop_front_def split: if_splits)
  then obtain k where k: "count d = Suc k"
    by (cases "count d") (auto simp: empty_d_def size_d_def)
  from assms(2) ne have d': "d' = d\<lparr>destroyed := destroyed d @ [front_index d],
      front_index := next_back_index N (front_index d), count := count d - 1\<rparr>"
    by (simp add: pop_front_eq front_helpers)
  have "live_slots N d = begin_index N d # live_slots N d'"
    by (simp add: live_slots_def d' k begin_index_eq)
  then show ?thesis
    by (simp add: contents_def d')
qed

lemma clear_fields:
  "count (clear N d) = 0 \<and> back_index (clear N d) = initial_back_index N \<and>
   front_index (clear N d) = initial_front_index N \<and> array (clear N d) = array d \<and>
   destroyed (clear N d) = destroyed d @
     (if count d > 0
      then (if front_index d < back_index d then [front_index d..<back_index d]
            else [front_index d..<N] @ [0..<back_index d])
      else [])"
  by (simp add: clear_def Let_def destroy_loop_fields first_index_def)

lemma contents_clear: "contents N (clear N d) = []"
  by (simp add: contents_def live_slots_def clear_fields)

lemma contents_init: "contents N (circular_deque_init N dflt) = []"
  by (simp add: contents_def live_slots_def circular_deque_init_def)

lemma step_contents:
  assumes "wellformed N d" "step N x d = Some d'"
  shows "contents N d' = deque_model [x] (contents N d)"
proof (cases x)
  case (Push_back v)
  with assms show ?thesis by (simp add: contents_push_back)
next
  case (Push_front v)
  with assms show ?thesis by (simp add: contents_push_front)
next
  case Pop_back
  with assms show ?thesis by (simp add: contents_pop_back)
next
  case Pop_front
  with assms show ?thesis by (simp add: contents_pop_front)
next
  case Clear
  with assms show ?thesis by (auto simp: contents_clear)
qed

lemma deque_model_Cons: "deque_model (x # xs) ys = deque_model xs (deque_model [x] ys)"
  by (cases x) simp_all

lemma run_contents_from:
  "1 < N \<Longrightarrow> wellformed N d \<Longrightarrow> run N ops d = Some d' \<Longrightarrow>
   contents N d' = deque_model ops (contents N d)"
proof (induction ops arbitrary: d)
  case Nil
  then show ?case by simp
next
  case (Cons x xs)
  from Cons.prems(3) obtain d1 where s: "step N x d = Some d1" and r: "run N xs d1 = Some d'"
    by (auto split: option.splits)
  from Cons.prems(1,2) s have w: "wellformed N d1" by (rule step_wellformed)
  have "contents N d' = deque_model xs (contents N d1)"
    using Cons.IH[OF Cons.prems(1) w r] .
  also have "contents N d1 = deque_model [x] (contents N d)"
    using Cons.prems(2) s by (rule step_contents)
  finally show ?case by (simp add: deque_model_Cons[of x xs])
qed

lemma run_contents:
  assumes "1 < N" "run N ops (circular_deque_init N dflt) = Some d"
  shows "contents N d = deque_model ops []"
  using run_contents_from[OF assms(1) wf_init[OF assms(1)] assms(2)]
  by (simp add: contents_init)

lemma contents_length: "length (contents N d) = count d"
  by (simp add: contents_def live_slots_def ring_walk_length)

lemma front_is_hd:
  assumes "\<not> empty_d d"
  shows "front_d N d = Some (hd (contents N d))"
proof -
  from assms obtain k where k: "count d = Suc k"
    by (cases "count d") (auto simp: empty_d_def size_d_def)
  then show ?thesis using assms
    by (simp add: front_d_def contents_def live_slots_def begin_index_def)
qed

lemma back_is_last:
  assumes "wellformed N d" "\<not> empty_d d"
  shows "back_d N d = Some (last (contents N d))"
proof -
  from assms(2) obtain k where k: "count d = Suc k"
    by (cases "count d") (auto simp: empty_d_def size_d_def)
  have N: "0 < N" and b: "begin_index N d < N"
    using assms(1) by (rule wf_positive, rule wf_begin_less)
  have bk: "back_index d = (begin_index N d + Suc k) mod N"
    using wf_back_from_begin[OF assms(1)] k by simp
  have "previous_back_index N (back_index d) = (begin_index N d + Suc k + (N - 1)) mod N"
    by (rule ring_previous[OF bk N])
  also have "begin_index N d + Suc k + (N - 1) = begin_index N d + k + N"
    using N by arith
  also have "(begin_index N d + k + N) mod N = (begin_index N d + k) mod N"
    by (rule mod_add_self2)
  finally have p: "previous_back_index N (back_index d) = (begin_index N d + k) mod N" .
  have "live_slots N d = ring_walk N (begin_index N d) k @ [(begin_index N d + k) mod N]"
    using ring_walk_snoc[OF N b, of k] by (simp add: live_slots_def k)
  then show ?thesis using assms(2) p
    by (simp add: back_d_def contents_def this_previous_back_index_def)
qed

subsection \<open>Forward iteration\<close>

lemma traverse_ring_walk:
  assumes "0 < N"
  shows "i < N \<Longrightarrow> k < N \<Longrightarrow>
    traverse N d \<lparr>owner = p, index = i\<rparr> \<lparr>owner = p, index = (i + k) mod N\<rparr>
      = Some (map (\<lambda>j. array d ! j) (ring_walk N i k))"
proof (induction k arbitrary: i)
  case 0
  then show ?case
    by (subst traverse.simps) (simp add: iterator_neq_def)
next
  case (Suc k)
  have neq: "i \<noteq> (i + Suc k) mod N"
    using ring_mod_neq[of 0 "Suc k" N i] Suc.prems by simp
  have n: "next_back_index N i < N"
    using assms Suc.prems(1) by (rule next_back_index_less)
  have "(next_back_index N i + k) mod N = ((i + 1) mod N + k) mod N"
    using Suc.prems(1) by (simp add: next_back_index_mod)
  also have "\<dots> = (i + 1 + k) mod N" by (rule mod_add_left_eq)
  finally have e: "(i + Suc k) mod N = (next_back_index N i + k) mod N" by simp
  have k: "k < N" using Suc.prems(2) by simp
  have ih: "traverse N d \<lparr>owner = p, index = next_back_index N i\<rparr>
              \<lparr>owner = p, index = (i + Suc k) mod N\<rparr>
            = Some (map (\<lambda>j. array d ! j) (ring_walk N (next_back_index N i) k))"
    unfolding e by (rule Suc.IH[OF n k])
  show ?case
    by (subst traverse.simps)
       (use neq ih in \<open>simp add: iterator_neq_def iterator_increment_def iterator_deref_def\<close>)
qed

lemma forward_iteration_not_full:
  assumes "wellformed N d" "\<not> full N d"
  shows "forward_iteration N this d = Some (contents N d)"
proof -
  have N: "0 < N" and b: "begin_index N d < N"
    using assms(1) by (rule wf_positive, rule wf_begin_less)
  from assms have c: "count d < N"
    by (auto simp: wellformed_def full_def size_d_def max_size_def)
  show ?thesis
    unfolding forward_iteration_def begin_d_def end_d_def end_index_def
      wf_back_from_begin[OF assms(1)] contents_def live_slots_def
    by (rule traverse_ring_walk[OF N b c])
qed

lemma wf_cursors_adjacent:
  assumes "wellformed N d" "empty_d d \<or> full N d"
  shows "back_index d = next_back_index N (front_index d)"
proof -
  from assms(1) have f: "front_index d < N"
    and b: "back_index d = (front_index d + 1 + count d) mod N"
    by (simp_all add: wellformed_def)
  from assms(2) have "count d = 0 \<or> count d = N"
    by (auto simp: empty_d_def full_def size_d_def max_size_def)
  then have "(front_index d + 1 + count d) mod N = (front_index d + 1) mod N"
  proof
    assume "count d = 0"
    then show ?thesis by simp
  next
    assume "count d = N"
    then have "(front_index d + 1 + count d) mod N = (front_index d + 1 + N) mod N"
      by simp
    also have "\<dots> = (front_index d + 1) mod N"
      by (rule mod_add_self2)
    finally show ?thesis .
  qed
  with b show ?thesis
    by (simp add: next_back_index_mod[OF f])
qed

lemma forward_iteration_adjacent:
  assumes "wellformed N d" "empty_d d \<or> full N d"
  shows "forward_iteration N this d = Some []"
  unfolding forward_iteration_def
  by (subst traverse.simps)
     (simp add: iterator_neq_def begin_d_def end_d_def end_index_def begin_index_eq
        wf_cursors_adjacent[OF assms])

lemma wf_cursor_difference:
  assumes "wellformed N d"
  shows "(int (back_index d) - int (front_index d)) mod int N = (int (count d) + 1) mod int N"
proof -
  from assms have b: "back_index d = (front_index d + 1 + count d) mod N"
    by (simp add: wellformed_def)
  have "int (back_index d) = int (front_index d + 1 + count d) mod int N"
    unfolding b by (rule zmod_int)
  also have "int (front_index d + 1 + count d) = int (front_index d) + 1 + int (count d)"
    by simp
  finally have "int (back_index d) = (int (front_index d) + 1 + int (count d)) mod int N" .
  then have "(int (back_index d) - int (front_index d)) mod int N
      = ((int (front_index d) + 1 + int (count d)) mod int N - int (front_index d)) mod int N"
    by simp
  also have "\<dots> = (int (front_index d) + 1 + int (count d) - int (front_index d)) mod int N"
    by (rule mod_diff_left_eq)
  also have "int (front_index d) + 1 + int (count d) - int (front_index d) = int (count d) + 1"
    by simp
  finally show ?thesis .
qed

subsection \<open>The boundary slots\<close>

lemma live_slots_hd:
  assumes "\<not> empty_d d"
  shows "hd (live_slots N d) = this_previous_front_index N d"
proof -
  from assms obtain k where "count d = Suc k"
    by (cases "count d") (auto simp: empty_d_def size_d_def)
  then show ?thesis
    by (simp add: live_slots_def begin_index_def)
qed

lemma live_slots_last:
  assumes "wellformed N d" "\<not> empty_d d"
  shows "last (live_slots N d) = this_previous_back_index N d"
proof -
  from assms(2) obtain k where k: "count d = Suc k"
    by (cases "count d") (auto simp: empty_d_def size_d_def)
  have N: "0 < N" and b: "begin_index N d < N"
    using assms(1) by (rule wf_positive, rule wf_begin_less)
  have bk: "back_index d = (begin_index N d + Suc k) mod N"
    using wf_back_from_begin[OF assms(1)] k by simp
  have "previous_back_index N (back_index d) = (begin_index N d + Suc k + (N - 1)) mod N"
    by (rule ring_previous[OF bk N])
  also have "begin_index N d + Suc k + (N - 1) = begin_index N d + k + N"
    using N by arith
  also have "(begin_index N d + k + N) mod N = (begin_index N d + k) mod N"
    by (rule mod_add_self2)
  finally have p: "previous_back_index N (back_index d) = (begin_index N d + k) mod N" .
  have "live_slots N d = ring_walk N (begin_index N d) k @ [(begin_index N d + k) mod N]"
    using ring_walk_snoc[OF N b, of k] by (simp add: live_slots_def k)
  then show ?thesis using p
    by (simp add: this_previous_back_index_def)
qed

lemma pop_back_destroys_free_slot:
  assumes "wellformed N d" "\<not> empty_d d" "\<not> full N d"
  shows "\<exists>d'. pop_back N d = Some d' \<and> destroyed d' = destroyed d @ [back_index d] \<and>
           back_index d \<notin> set (live_slots N d)"
proof -
  have N: "0 < N" and b: "begin_index N d < N"
    using assms(1) by (rule wf_positive, rule wf_begin_less)
  from assms(1,3) have c: "count d < N"
    by (auto simp: wellformed_def full_def size_d_def max_size_def)
  have "back_index d \<notin> set (live_slots N d)"
    unfolding live_slots_def wf_back_from_begin[OF assms(1)]
    by (rule ring_walk_fresh[OF N b c])
  with assms(2) show ?thesis
    by (simp add: pop_back_eq)
qed

lemma pop_front_destroys_free_slot:
  assumes "wellformed N d" "\<not> empty_d d" "\<not> full N d"
  shows "\<exists>d'. pop_front N d = Some d' \<and> destroyed d' = destroyed d @ [front_index d] \<and>
           front_index d \<notin> set (live_slots N d)"
proof -
  have N: "0 < N" using assms(1) by (rule wf_positive)
  from assms(1) have f: "front_index d < N"
    by (simp add: wellformed_def)
  from assms(1,3) have c: "count d < N"
    by (auto simp: wellformed_def full_def size_d_def max_size_def)
  have "distinct (ring_walk N (front_index d) (Suc (count d)))"
    using N f c by (intro ring_walk_distinct) simp_all
  then have "front_index d \<notin> set (live_slots N d)"
    by (simp add: live_slots_def begin_index_eq)
  with assms(2) show ?thesis
    by (simp add: pop_front_eq)
qed

lemma search_loop_iff:
  "search_loop i b (\<lambda>index. index) arr v \<longleftrightarrow> (\<exists>k. i \<le> k \<and> k < b \<and> arr ! k = v)"
proof (induction i b "\<lambda>index::nat. index" arr v rule: search_loop.induct)
  case (1 index bound arr v)
  show ?case
  proof (cases "index < bound")
    case False
    then show ?thesis by (subst search_loop.simps) auto
  next
    case True
    show ?thesis
    proof (cases "arr ! index = v")
      case True
      with \<open>index < bound\<close> show ?thesis
        by (subst search_loop.simps) auto
    next
      case False
      with True 1 have "search_loop index bound (\<lambda>index. index) arr v
          \<longleftrightarrow> (\<exists>k\<ge>index + 1. k < bound \<and> arr ! k = v)"
        by (subst search_loop.simps) simp
      also have "\<dots> \<longleftrightarrow> (\<exists>k\<ge>index. k < bound \<and> arr ! k = v)"
        using False by (metis Suc_eq_plus1 Suc_leD Suc_leI le_neq_implies_less)
      finally show ?thesis .
    qed
  qed
qed

lemma contains_linear_range:
  assumes "\<not> empty_d d" "front_index d < back_index d"
  shows "contains N i v d \<longleftrightarrow> (\<exists>k. front_index d \<le> k \<and> k < back_index d \<and> array d ! k = v)"
  using assms by (simp add: contains_def search_loop_iff)

lemma contains_empty: "empty_d d \<Longrightarrow> \<not> contains N i v d"
  by (simp add: contains_def)

subsection \<open>Push, read, pop: the stored values\<close>

text \<open>
  On the stored values a push followed by a pop at the same end restores what the
  container held. This is a statement about the array: it does not say that the slots
  read afterwards still hold an object (see \<open>destroy_slot\<close>).
\<close>

lemma push_pop_stored_values:
  assumes "wellformed N d" "\<not> full N d"
  shows "(\<exists>d1 d2. push_back N v d = Some d1 \<and> back_d N d1 = Some v
            \<and> contents N d1 = contents N d @ [v]
            \<and> pop_back N d1 = Some d2 \<and> size_d d2 + 1 = size_d d1
            \<and> contents N d2 = contents N d \<and> back_d N d2 = back_d N d
            \<and> (\<not> empty_d d2 \<longrightarrow> back_d N d2 = Some (last (contents N d))))
       \<and> (\<exists>d1 d2. push_front N v d = Some d1 \<and> front_d N d1 = Some v
            \<and> contents N d1 = v # contents N d
            \<and> pop_front N d1 = Some d2 \<and> size_d d2 + 1 = size_d d1
            \<and> contents N d2 = contents N d \<and> front_d N d2 = front_d N d
            \<and> (\<not> empty_d d2 \<longrightarrow> front_d N d2 = Some (hd (contents N d))))"
proof (rule conjI)
  obtain d1 where p: "push_back N v d = Some d1"
    using assms(2) by (simp add: push_back_eq)
  have w1: "wellformed N d1" using assms(1) p by (rule wf_push_back)
  have c1: "contents N d1 = contents N d @ [v]" using assms(1) p by (rule contents_push_back)
  have s1: "size_d d1 = size_d d + 1"
    using p assms(2) by (auto simp: push_back_eq size_d_def)
  then have n1: "\<not> empty_d d1" by (simp add: empty_d_def)
  have b1: "back_d N d1 = Some v"
    using back_is_last[OF w1 n1] c1 by simp
  obtain d2 where q: "pop_back N d1 = Some d2"
    using n1 by (simp add: pop_back_eq)
  have w2: "wellformed N d2" using w1 q by (rule wf_pop_back)
  have c2: "contents N d2 = contents N d"
    using contents_pop_back[OF w1 q] c1 by simp
  have s2: "size_d d2 + 1 = size_d d1"
    using q n1 by (auto simp: pop_back_eq size_d_def empty_d_def)
  have e2: "empty_d d2 \<longleftrightarrow> empty_d d"
    using s1 s2 by (simp add: empty_d_def)
  have b2: "back_d N d2 = back_d N d"
  proof (cases "empty_d d")
    case True
    with e2 show ?thesis by (simp add: back_d_def)
  next
    case False
    with e2 have "\<not> empty_d d2" by simp
    from back_is_last[OF w2 this] back_is_last[OF assms(1) False] c2 show ?thesis by simp
  qed
  have l2: "back_d N d2 = Some (last (contents N d))" if "\<not> empty_d d2"
    using back_is_last[OF w2 that] c2 by simp
  from p b1 c1 q s2 c2 b2 l2
  show "\<exists>d1 d2. push_back N v d = Some d1 \<and> back_d N d1 = Some v
            \<and> contents N d1 = contents N d @ [v]
            \<and> pop_back N d1 = Some d2 \<and> size_d d2 + 1 = size_d d1
            \<and> contents N d2 = contents N d \<and> back_d N d2 = back_d N d
            \<and> (\<not> empty_d d2 \<longrightarrow> back_d N d2 = Some (last (contents N d)))"
    by blast
next
  obtain d1 where p: "push_front N v d = Some d1"
    using assms(2) by (simp add: push_front_eq)
  have w1: "wellformed N d1" using assms(1) p by (rule wf_push_front)
  have c1: "contents N d1 = v # contents N d" using assms(1) p by (rule contents_push_front)
  have s1: "size_d d1 = size_d d + 1"
    using p assms(2) by (auto simp: push_front_eq size_d_def)
  then have n1: "\<not> empty_d d1" by (simp add: empty_d_def)
  have b1: "front_d N d1 = Some v"
    using front_is_hd[OF n1, of N] c1 by simp
  obtain d2 where q: "pop_front N d1 = Some d2"
    using n1 by (simp add: pop_front_eq)
  have c2: "contents N d2 = contents N d"
    using contents_pop_front[OF w1 q] c1 by simp
  have s2: "size_d d2 + 1 = size_d d1"
    using q n1 by (auto simp: pop_front_eq size_d_def empty_d_def)
  have e2: "empty_d d2 \<longleftrightarrow> empty_d d"
    using s1 s2 by (simp add: empty_d_def)
  have b2: "front_d N d2 = front_d N d"
  proof (cases "empty_d d")
    case True
    with e2 show ?thesis by (simp add: front_d_def)
  next
    case False
    with e2 have "\<not> empty_d d2" by simp
    from front_is_hd[OF this, of N] front_is_hd[OF False, of N] c2 show ?thesis by simp
  qed
  have l2: "front_d N d2 = Some (hd (contents N d))" if "\<not> empty_d d2"
    using front_is_hd[OF that, of N] c2 by simp
  from p b1 c1 q s2 c2 b2 l2
  show "\<exists>d1 d2. push_front N v d = Some d1 \<and> front_d N d1 = Some v
            \<and> contents N d1 = v # contents N d
            \<and> pop_front N d1 = Some d2 \<and> size_d d2 + 1 = size_d d1
            \<and> contents N d2 = contents N d \<and> front_d N d2 = front_d N d
            \<and> (\<not> empty_d d2 \<longrightarrow> front_d N d2 = Some (hd (contents N d)))"
    by blast
qed

section \<open>The claims\<close>

text \<open>
  \<^bold>\<open>Claim C1.\<close> \<open>pop_back\<close> is claimed to invoke the destructor on the live back element, the
  slot \<open>back()\<close> reads (\<open>previous_back_index\<close>), and \<open>pop_front\<close> on the live front element,
  the slot \<open>front()\<close> reads (\<open>previous_front_index\<close>). The code calls the destructor on
  \<^verbatim>\<open>this->array[this->back_index]\<close> and \<^verbatim>\<open>this->array[this->front_index]\<close>, the cursor slots
  themselves, one ring step beyond the live element. On a container of capacity 4 holding
  the single element 5: after \<open>push_back(5)\<close> the element lives in slot 2, which \<open>back()\<close>
  reads, and \<open>pop_back()\<close> destroys slot 3; after \<open>push_front(5)\<close> the element lives in slot
  1, which \<open>front()\<close> reads, and \<open>pop_front()\<close> destroys slot 0. In every container that is
  neither empty nor full the slot destroyed is not a live one
  (\<open>pop_back_destroys_free_slot\<close>, \<open>pop_front_destroys_free_slot\<close>). The cursor and the
  counter are updated as the claim says (\<open>pop_back_eq\<close>, \<open>pop_front_eq\<close>).
\<close>

theorem pop_destroys_cursor_slot:
  "push_back 4 5 (circular_deque_init 4 (0::int))
     = Some \<lparr>count = 1, back_index = 3, front_index = 1, array = [0, 0, 5, 0], destroyed = []\<rparr>
   \<and> back_d 4 \<lparr>count = 1, back_index = 3, front_index = 1, array = [0, 0, 5, 0::int], destroyed = []\<rparr> = Some 5
   \<and> this_previous_back_index 4 \<lparr>count = 1, back_index = 3, front_index = 1, array = [0, 0, 5, 0::int], destroyed = []\<rparr> = 2
   \<and> live_slots 4 \<lparr>count = 1, back_index = 3, front_index = 1, array = [0, 0, 5, 0::int], destroyed = []\<rparr> = [2]
   \<and> pop_back 4 \<lparr>count = 1, back_index = 3, front_index = 1, array = [0, 0, 5, 0::int], destroyed = []\<rparr>
     = Some \<lparr>count = 0, back_index = 2, front_index = 1, array = [0, 0, 5, 0], destroyed = [3]\<rparr>
   \<and> push_front 4 5 (circular_deque_init 4 (0::int))
     = Some \<lparr>count = 1, back_index = 2, front_index = 0, array = [0, 5, 0, 0], destroyed = []\<rparr>
   \<and> front_d 4 \<lparr>count = 1, back_index = 2, front_index = 0, array = [0, 5, 0, 0::int], destroyed = []\<rparr> = Some 5
   \<and> this_previous_front_index 4 \<lparr>count = 1, back_index = 2, front_index = 0, array = [0, 5, 0, 0::int], destroyed = []\<rparr> = 1
   \<and> live_slots 4 \<lparr>count = 1, back_index = 2, front_index = 0, array = [0, 5, 0, 0::int], destroyed = []\<rparr> = [1]
   \<and> pop_front 4 \<lparr>count = 1, back_index = 2, front_index = 0, array = [0, 5, 0, 0::int], destroyed = []\<rparr>
     = Some \<lparr>count = 0, back_index = 2, front_index = 1, array = [0, 5, 0, 0], destroyed = [0]\<rparr>"
  by (simp add: ring_defs deque_defs live_slots_def replicate_numeral_Cons)

text \<open>
  \<^bold>\<open>Claim C2.\<close> The scenario with capacity 3: \<open>push_back(1); push_back(2); push_front(0)\<close>
  gives \<open>size() = 3\<close>, \<open>full()\<close>, \<open>front() = 0\<close> and \<open>back() = 2\<close>, and the live elements are
  \<open>[0, 1, 2]\<close>; \<open>pop_back()\<close> then gives \<open>size() = 2\<close> and \<open>back() = 1\<close>; \<open>push_back(9)\<close> then
  gives \<open>full()\<close> with live elements \<open>[0, 1, 9]\<close>. In both full states, however,
  \<open>begin()\<close> and \<open>end()\<close> hold the same index 0, and forward iteration from \<open>begin()\<close> to
  \<open>end()\<close> visits no element, where the claim expects \<open>[0, 1, 2]\<close> and \<open>[0, 1, 9]\<close>.
\<close>

theorem scenario_capacity_three:
  "run 3 [Push_back 1, Push_back 2, Push_front 0] (circular_deque_init 3 (0::int))
     = Some \<lparr>count = 3, back_index = 0, front_index = 2, array = [0, 1, 2], destroyed = []\<rparr>
   \<and> size_d \<lparr>count = 3, back_index = 0, front_index = 2, array = [0, 1, 2::int], destroyed = []\<rparr> = 3
   \<and> full 3 \<lparr>count = 3, back_index = 0, front_index = 2, array = [0, 1, 2::int], destroyed = []\<rparr>
   \<and> front_d 3 \<lparr>count = 3, back_index = 0, front_index = 2, array = [0, 1, 2::int], destroyed = []\<rparr> = Some 0
   \<and> back_d 3 \<lparr>count = 3, back_index = 0, front_index = 2, array = [0, 1, 2::int], destroyed = []\<rparr> = Some 2
   \<and> contents 3 \<lparr>count = 3, back_index = 0, front_index = 2, array = [0, 1, 2::int], destroyed = []\<rparr> = [0, 1, 2]
   \<and> forward_iteration 3 this \<lparr>count = 3, back_index = 0, front_index = 2, array = [0, 1, 2::int], destroyed = []\<rparr>
       = Some []
   \<and> pop_back 3 \<lparr>count = 3, back_index = 0, front_index = 2, array = [0, 1, 2::int], destroyed = []\<rparr>
       = Some \<lparr>count = 2, back_index = 2, front_index = 2, array = [0, 1, 2], destroyed = [0]\<rparr>
   \<and> size_d \<lparr>count = 2, back_index = 2, front_index = 2, array = [0, 1, 2::int], destroyed = [0]\<rparr> = 2
   \<and> back_d 3 \<lparr>count = 2, back_index = 2, front_index = 2, array = [0, 1, 2::int], destroyed = [0]\<rparr> = Some 1
   \<and> push_back 3 9 \<lparr>count = 2, back_index = 2, front_index = 2, array = [0, 1, 2::int], destroyed = [0]\<rparr>
       = Some \<lparr>count = 3, back_index = 0, front_index = 2, array = [0, 1, 9], destroyed = [0]\<rparr>
   \<and> full 3 \<lparr>count = 3, back_index = 0, front_index = 2, array = [0, 1, 9::int], destroyed = [0]\<rparr>
   \<and> contents 3 \<lparr>count = 3, back_index = 0, front_index = 2, array = [0, 1, 9::int], destroyed = [0]\<rparr> = [0, 1, 9]
   \<and> forward_iteration 3 this \<lparr>count = 3, back_index = 0, front_index = 2, array = [0, 1, 9::int], destroyed = [0]\<rparr>
       = Some []"
  by (simp add: ring_defs deque_defs iterator_defs traverse.simps contents_def live_slots_def
      replicate_numeral_Cons numeral_3_eq_3)

text \<open>
  \<^bold>\<open>Claim C3.\<close> Forward iteration from \<open>begin()\<close> until \<open>end()\<close> is claimed to visit exactly
  the live elements in front-to-back order after every sequence of pushes and pops that
  respects the preconditions. It does so whenever the container is not full
  (\<open>forward_iteration_not_full\<close>, \<open>run_contents\<close>). In a full container \<open>begin()\<close> equals
  \<open>end()\<close> and the loop visits nothing: with capacity 2, after \<open>push_back(1); push_back(2)\<close>
  the live elements are \<open>[1, 2]\<close> and forward iteration yields \<open>[]\<close>.
\<close>

theorem full_ring_iterates_nothing:
  "run 2 [Push_back 1, Push_back 2] (circular_deque_init 2 (0::int))
     = Some \<lparr>count = 2, back_index = 1, front_index = 0, array = [2, 1], destroyed = []\<rparr>
   \<and> deque_model [Push_back 1, Push_back 2] [] = [1, 2::int]
   \<and> contents 2 \<lparr>count = 2, back_index = 1, front_index = 0, array = [2, 1::int], destroyed = []\<rparr> = [1, 2]
   \<and> forward_iteration 2 this \<lparr>count = 2, back_index = 1, front_index = 0, array = [2, 1::int], destroyed = []\<rparr>
       = Some []"
  by (simp add: ring_defs deque_defs iterator_defs traverse.simps contents_def live_slots_def
      replicate_numeral_Cons numeral_2_eq_2)

text \<open>
  \<^bold>\<open>Claim C4.\<close> \<open>clear()\<close> is claimed to destroy exactly the live slots. Its loops start at
  \<open>front_index\<close>, the free slot before the first live one, and stop before \<open>back_index\<close>.
  With capacity 4 and the single live slot 2 (after \<open>push_back(5)\<close>), \<open>clear()\<close> destroys
  slots 1 and 2. With capacity 3 and all of the slots 1, 2, 0 live (after three
  \<open>push_back\<close>), \<open>clear()\<close> destroys slot 0 only. The counter and the cursors are reset
  as the claim says, and an empty container has no slot destroyed (\<open>clear_fields\<close>).
\<close>

theorem clear_destroys_other_slots:
  "live_slots 4 \<lparr>count = 1, back_index = 3, front_index = 1, array = [0, 0, 5, 0::int], destroyed = []\<rparr> = [2]
   \<and> clear 4 \<lparr>count = 1, back_index = 3, front_index = 1, array = [0, 0, 5, 0::int], destroyed = []\<rparr>
       = \<lparr>count = 0, back_index = 2, front_index = 1, array = [0, 0, 5, 0], destroyed = [1, 2]\<rparr>
   \<and> run 3 [Push_back 1, Push_back 2, Push_back 3] (circular_deque_init 3 (0::int))
       = Some \<lparr>count = 3, back_index = 1, front_index = 0, array = [3, 1, 2], destroyed = []\<rparr>
   \<and> live_slots 3 \<lparr>count = 3, back_index = 1, front_index = 0, array = [3, 1, 2::int], destroyed = []\<rparr> = [1, 2, 0]
   \<and> clear 3 \<lparr>count = 3, back_index = 1, front_index = 0, array = [3, 1, 2::int], destroyed = []\<rparr>
       = \<lparr>count = 0, back_index = 1, front_index = 0, array = [3, 1, 2], destroyed = [0]\<rparr>"
  by (simp add: ring_defs deque_defs clear_def destroy_loop.simps live_slots_def
      replicate_numeral_Cons numeral_3_eq_3)

text \<open>
  \<^bold>\<open>Claim C5.\<close> \<open>contains(v)\<close> is claimed to hold exactly when \<open>v\<close> equals a live element.
  Its linear branch searches from \<open>front_index\<close>, the free slot before the first live
  one. With capacity 5, after \<open>push_back(1); push_back(2); pop_front()\<close> the only live
  element is 2, the popped 1 still stands in slot 2, which is now \<open>front_index\<close>, and
  \<open>contains(1)\<close> returns true (whatever the undeclared \<open>i\<close> of the other branch is). The
  linear branch searches the slots from \<open>front_index\<close> to \<open>back_index - 1\<close>
  (\<open>contains_linear_range\<close>). On an empty container \<open>contains\<close> returns false (\<open>contains_empty\<close>).
\<close>

theorem contains_finds_popped_value:
  "run 5 [Push_back 1, Push_back 2, Pop_front] (circular_deque_init 5 (0::int))
     = Some \<lparr>count = 1, back_index = 4, front_index = 2, array = [0, 0, 1, 2, 0], destroyed = [1]\<rparr>
   \<and> contents 5 \<lparr>count = 1, back_index = 4, front_index = 2, array = [0, 0, 1, 2, 0::int], destroyed = [1]\<rparr> = [2]
   \<and> contains 5 i 1 \<lparr>count = 1, back_index = 4, front_index = 2, array = [0, 0, 1, 2, 0::int], destroyed = [1]\<rparr>"
  by (simp add: ring_defs deque_defs contains_def search_loop.simps contents_def live_slots_def
      replicate_numeral_Cons)

text \<open>
  \<^bold>\<open>Claim C6.\<close> Take any sequence of \<open>push_back\<close>, \<open>push_front\<close>, \<open>pop_back\<close> and
  \<open>pop_front\<close> calls on a new container that respects the preconditions: no push when
  the pushes so far exceed the pops by \<open>N\<close>, no pop when they are equal. Then after each
  call (after the first \<open>k\<close> calls, for every \<open>k\<close>) no assertion has failed, \<open>size()\<close> is the
  number of pushes minus the number of pops so far, and \<open>full()\<close> holds if and only if
  \<open>size() = N\<close>.
\<close>

theorem valid_sequence_size:
  assumes "respects_preconditions N 0 ops"
  shows "\<exists>d. run N (take k ops) (circular_deque_init N dflt) = Some d
           \<and> int (size_d d) = int (pushes (take k ops)) - int (pops (take k ops))
           \<and> (full N d \<longleftrightarrow> size_d d = N)"
proof -
  have t: "respects_preconditions N 0 (take k ops)"
    using assms by (rule respects_take)
  then have "respects_preconditions N (count (circular_deque_init N dflt)) (take k ops)"
    by (simp add: circular_deque_init_def)
  then obtain d where r: "run N (take k ops) (circular_deque_init N dflt) = Some d"
    using run_respects by blast
  have "int (count d) = int (count (circular_deque_init N dflt))
      + int (pushes (take k ops)) - int (pops (take k ops))"
    using r respects_no_clear[OF t] by (rule run_count)
  then have "int (size_d d) = int (pushes (take k ops)) - int (pops (take k ops))"
    by (simp add: size_d_def circular_deque_init_def)
  moreover have "full N d \<longleftrightarrow> size_d d = N"
    by (simp add: full_def max_size_def)
  ultimately show ?thesis using r by blast
qed

theorem valid_sequence_size_witness:
  "respects_preconditions 3 0 [Push_back 1, Push_back 2, Push_front 0, Pop_back, Pop_front :: int operation]
   \<and> run 3 (take 5 [Push_back 1, Push_back 2, Push_front 0, Pop_back, Pop_front])
         (circular_deque_init 3 (0::int))
       = Some \<lparr>count = 1, back_index = 2, front_index = 0, array = [0, 1, 2], destroyed = [0, 2]\<rparr>
   \<and> int (size_d \<lparr>count = 1, back_index = 2, front_index = 0, array = [0, 1, 2::int], destroyed = [0, 2]\<rparr>)
       = int (pushes (take 5 [Push_back 1, Push_back 2, Push_front 0, Pop_back, Pop_front :: int operation]))
         - int (pops (take 5 [Push_back 1, Push_back 2, Push_front 0, Pop_back, Pop_front :: int operation]))
   \<and> \<not> full 3 \<lparr>count = 1, back_index = 2, front_index = 0, array = [0, 1, 2::int], destroyed = [0, 2]\<rparr>
   \<and> run 3 (take 3 [Push_back 1, Push_back 2, Push_front 0, Pop_back, Pop_front])
         (circular_deque_init 3 (0::int))
       = Some \<lparr>count = 3, back_index = 0, front_index = 2, array = [0, 1, 2], destroyed = []\<rparr>
   \<and> full 3 \<lparr>count = 3, back_index = 0, front_index = 2, array = [0, 1, 2::int], destroyed = []\<rparr>"
proof -
  have h: "respects_preconditions 3 0
      [Push_back 1, Push_back 2, Push_front 0, Pop_back, Pop_front :: int operation]"
    by simp
  have t5: "take 5 [Push_back 1, Push_back 2, Push_front 0, Pop_back, Pop_front :: int operation]
      = [Push_back 1, Push_back 2, Push_front 0, Pop_back, Pop_front]"
    by simp
  have t3: "take 3 [Push_back 1, Push_back 2, Push_front 0, Pop_back, Pop_front :: int operation]
      = [Push_back 1, Push_back 2, Push_front 0]"
    by simp
  have r5: "run 3 [Push_back 1, Push_back 2, Push_front 0, Pop_back, Pop_front]
         (circular_deque_init 3 (0::int))
       = Some \<lparr>count = 1, back_index = 2, front_index = 0, array = [0, 1, 2], destroyed = [0, 2]\<rparr>"
    by (simp add: ring_defs deque_defs replicate_numeral_Cons)
  have r3: "run 3 [Push_back 1, Push_back 2, Push_front 0] (circular_deque_init 3 (0::int))
       = Some \<lparr>count = 3, back_index = 0, front_index = 2, array = [0, 1, 2], destroyed = []\<rparr>"
    by (simp add: ring_defs deque_defs replicate_numeral_Cons)
  show ?thesis
    using h valid_sequence_size[OF h, of 5 0] valid_sequence_size[OF h, of 3 0]
    unfolding t5 t3 r5 r3
    by (simp add: size_d_def full_def max_size_def)
qed

text \<open>
  \<^bold>\<open>Claim C7.\<close> In every reachable state \<open>begin()\<close> is an iterator of this container at the
  slot one ring step after \<open>front_index\<close>, and \<open>end()\<close> is one at \<open>back_index\<close>. When the
  container is not empty, the slot of \<open>begin()\<close> is the first live slot, the one \<open>front()\<close>
  reads, and it holds the first element of the queue; the slot of \<open>end()\<close> is one ring
  step after the last live slot, the one \<open>back()\<close> reads, which holds the last element of
  the queue. When the container is empty, \<open>begin() == end()\<close>.
\<close>

theorem begin_end_positions:
  assumes "1 < N" "run N ops (circular_deque_init N dflt) = Some d"
  shows "index (begin_d N this d) = next_back_index N (front_index d)
     \<and> index (end_d N this d) = back_index d
     \<and> owner (begin_d N this d) = Some this \<and> owner (end_d N this d) = Some this
     \<and> (\<not> empty_d d \<longrightarrow>
          index (begin_d N this d) = hd (live_slots N d)
        \<and> front_d N d = Some (array d ! index (begin_d N this d))
        \<and> array d ! index (begin_d N this d) = hd (deque_model ops [])
        \<and> index (end_d N this d) = next_back_index N (last (live_slots N d))
        \<and> back_d N d = Some (array d ! previous_back_index N (index (end_d N this d)))
        \<and> array d ! previous_back_index N (index (end_d N this d)) = last (deque_model ops []))
     \<and> (empty_d d \<longrightarrow> iterator_eq (begin_d N this d) (end_d N this d))"
proof -
  have wf: "wellformed N d"
    using assms by (rule run_wellformed)
  have c: "contents N d = deque_model ops []"
    using assms by (rule run_contents)
  have b: "back_index d < N"
    using wf by (simp add: wellformed_def)
  have pos: "index (begin_d N this d) = next_back_index N (front_index d)"
    "index (end_d N this d) = back_index d"
    "owner (begin_d N this d) = Some this" "owner (end_d N this d) = Some this"
    by (simp_all add: begin_d_def end_d_def begin_index_eq end_index_def)
  have e: "iterator_eq (begin_d N this d) (end_d N this d)" if "empty_d d"
    using wf_cursors_adjacent[OF wf] that
    by (simp add: iterator_eq_def begin_d_def end_d_def begin_index_eq end_index_def)
  have ne: "index (begin_d N this d) = hd (live_slots N d)
        \<and> front_d N d = Some (array d ! index (begin_d N this d))
        \<and> array d ! index (begin_d N this d) = hd (deque_model ops [])
        \<and> index (end_d N this d) = next_back_index N (last (live_slots N d))
        \<and> back_d N d = Some (array d ! previous_back_index N (index (end_d N this d)))
        \<and> array d ! previous_back_index N (index (end_d N this d)) = last (deque_model ops [])"
    if n: "\<not> empty_d d"
  proof -
    have 1: "index (begin_d N this d) = hd (live_slots N d)"
      by (simp add: live_slots_hd[OF n] begin_d_def begin_index_def)
    have 2: "front_d N d = Some (array d ! index (begin_d N this d))"
      using n by (simp add: front_d_def begin_d_def begin_index_def)
    have 3: "array d ! index (begin_d N this d) = hd (deque_model ops [])"
      using 2 front_is_hd[OF n, of N] c by simp
    have 4: "index (end_d N this d) = next_back_index N (last (live_slots N d))"
      by (simp add: live_slots_last[OF wf n] this_previous_back_index_def
          next_previous_back_index[OF b] end_d_def end_index_def)
    have 5: "back_d N d = Some (array d ! previous_back_index N (index (end_d N this d)))"
      using n by (simp add: back_d_def end_d_def end_index_def this_previous_back_index_def)
    have 6: "array d ! previous_back_index N (index (end_d N this d)) = last (deque_model ops [])"
      using 5 back_is_last[OF wf n] c by simp
    from 1 2 3 4 5 6 show ?thesis by blast
  qed
  from pos e ne show ?thesis by blast
qed

theorem begin_end_positions_witness:
  "(1::nat) < 3
   \<and> run 3 [Push_back 1, Push_back 2, Push_front 0, Pop_back] (circular_deque_init 3 (0::int))
       = Some \<lparr>count = 2, back_index = 2, front_index = 2, array = [0, 1, 2], destroyed = [0]\<rparr>
   \<and> \<not> empty_d \<lparr>count = 2, back_index = 2, front_index = 2, array = [0, 1, 2::int], destroyed = [0]\<rparr>
   \<and> index (begin_d 3 7 \<lparr>count = 2, back_index = 2, front_index = 2, array = [0, 1, 2::int], destroyed = [0]\<rparr>) = 0
   \<and> index (end_d 3 7 \<lparr>count = 2, back_index = 2, front_index = 2, array = [0, 1, 2::int], destroyed = [0]\<rparr>) = 2
   \<and> hd (deque_model [Push_back 1, Push_back 2, Push_front 0, Pop_back] []) = (0::int)
   \<and> last (deque_model [Push_back 1, Push_back 2, Push_front 0, Pop_back] []) = (1::int)
   \<and> empty_d (circular_deque_init 3 (0::int))
   \<and> iterator_eq (begin_d 3 7 (circular_deque_init 3 (0::int))) (end_d 3 7 (circular_deque_init 3 (0::int)))"
proof -
  have n: "(1::nat) < 3" by simp
  have r: "run 3 [Push_back 1, Push_back 2, Push_front 0, Pop_back] (circular_deque_init 3 (0::int))
       = Some \<lparr>count = 2, back_index = 2, front_index = 2, array = [0, 1, 2], destroyed = [0]\<rparr>"
    by (simp add: ring_defs deque_defs replicate_numeral_Cons)
  have r0: "run 3 [] (circular_deque_init 3 (0::int)) = Some (circular_deque_init 3 0)"
    by simp
  have e: "empty_d (circular_deque_init 3 (0::int))"
    by (simp add: deque_defs)
  show ?thesis
    using n r e begin_end_positions[OF n r, of 7] begin_end_positions[OF n r0, of 7]
    by (simp add: ring_defs deque_defs)
qed

text \<open>
  \<^bold>\<open>Claim C8.\<close> After \<open>push_back(v)\<close> on a container that is not full, \<open>back()\<close> returns
  \<open>v\<close>, and a \<open>pop_back()\<close> then makes \<open>size()\<close> one less and moves \<open>back_index\<close> back, so
  that \<open>back()\<close> reads the slot of the element that was last before the push; likewise for
  \<open>push_front\<close>, \<open>front()\<close> and \<open>pop_front\<close> (\<open>push_pop_stored_values\<close>). The claim says
  that \<open>back()\<close> and \<open>front()\<close> then refer to the next remaining element. But the pop calls
  the destructor on its cursor slot (C1), and when the push has filled the ring that slot
  holds a live element. With capacity 2 and the one element 1 in slot 1:
  \<open>push_back(2); pop_back()\<close> destroys slot 1, the only slot still live, and \<open>back()\<close> then
  reads slot 1; \<open>push_front(2); pop_front()\<close> destroys slot 1 as well, and \<open>front()\<close> then
  reads slot 1. The element they refer to has been destroyed.
\<close>

theorem roundtrip_destroys_remaining_element:
  "run 2 [Push_back 1] (circular_deque_init 2 (0::int))
     = Some \<lparr>count = 1, back_index = 0, front_index = 0, array = [0, 1], destroyed = []\<rparr>
   \<and> \<not> full 2 \<lparr>count = 1, back_index = 0, front_index = 0, array = [0, 1::int], destroyed = []\<rparr>
   \<and> push_back 2 2 \<lparr>count = 1, back_index = 0, front_index = 0, array = [0, 1::int], destroyed = []\<rparr>
       = Some \<lparr>count = 2, back_index = 1, front_index = 0, array = [2, 1], destroyed = []\<rparr>
   \<and> back_d 2 \<lparr>count = 2, back_index = 1, front_index = 0, array = [2, 1::int], destroyed = []\<rparr> = Some 2
   \<and> live_slots 2 \<lparr>count = 2, back_index = 1, front_index = 0, array = [2, 1::int], destroyed = []\<rparr> = [1, 0]
   \<and> pop_back 2 \<lparr>count = 2, back_index = 1, front_index = 0, array = [2, 1::int], destroyed = []\<rparr>
       = Some \<lparr>count = 1, back_index = 0, front_index = 0, array = [2, 1], destroyed = [1]\<rparr>
   \<and> live_slots 2 \<lparr>count = 1, back_index = 0, front_index = 0, array = [2, 1::int], destroyed = [1]\<rparr> = [1]
   \<and> this_previous_back_index 2
         \<lparr>count = 1, back_index = 0, front_index = 0, array = [2, 1::int], destroyed = [1]\<rparr> = 1
   \<and> push_front 2 2 \<lparr>count = 1, back_index = 0, front_index = 0, array = [0, 1::int], destroyed = []\<rparr>
       = Some \<lparr>count = 2, back_index = 0, front_index = 1, array = [2, 1], destroyed = []\<rparr>
   \<and> front_d 2 \<lparr>count = 2, back_index = 0, front_index = 1, array = [2, 1::int], destroyed = []\<rparr> = Some 2
   \<and> live_slots 2 \<lparr>count = 2, back_index = 0, front_index = 1, array = [2, 1::int], destroyed = []\<rparr> = [0, 1]
   \<and> pop_front 2 \<lparr>count = 2, back_index = 0, front_index = 1, array = [2, 1::int], destroyed = []\<rparr>
       = Some \<lparr>count = 1, back_index = 0, front_index = 0, array = [2, 1], destroyed = [1]\<rparr>
   \<and> this_previous_front_index 2
         \<lparr>count = 1, back_index = 0, front_index = 0, array = [2, 1::int], destroyed = [1]\<rparr> = 1"
  by (simp add: ring_defs deque_defs live_slots_def replicate_numeral_Cons numeral_2_eq_2)

text \<open>
  \<^bold>\<open>Claim C9.\<close> In every reachable state the distance from \<open>front_index\<close> to \<open>back_index\<close>
  is \<open>count + 1\<close> modulo \<open>N\<close>. So a full container has its cursors placed as an empty one
  has: \<open>back_index\<close> is one ring step after \<open>front_index\<close>. In a full container
  \<open>begin_index\<close> equals \<open>end_index\<close>, \<open>begin() == end()\<close>, and the loop from \<open>begin()\<close> until
  \<open>end()\<close> visits no element.
\<close>

theorem cursor_distance_invariant:
  assumes "1 < N" "run N ops (circular_deque_init N dflt) = Some d"
  shows "(int (back_index d) - int (front_index d)) mod int N = (int (count d) + 1) mod int N
     \<and> (empty_d d \<or> full N d \<longrightarrow> back_index d = next_back_index N (front_index d))
     \<and> (full N d \<longrightarrow>
          begin_index N d = end_index N d
        \<and> iterator_eq (begin_d N this d) (end_d N this d)
        \<and> forward_iteration N this d = Some [])"
proof -
  have wf: "wellformed N d"
    using assms by (rule run_wellformed)
  have a: "back_index d = next_back_index N (front_index d)" if "empty_d d \<or> full N d"
    using wf that by (rule wf_cursors_adjacent)
  have f: "begin_index N d = end_index N d
        \<and> iterator_eq (begin_d N this d) (end_d N this d)
        \<and> forward_iteration N this d = Some []" if "full N d"
    using a that forward_iteration_adjacent[OF wf, of this]
    by (simp add: iterator_eq_def begin_d_def end_d_def begin_index_eq end_index_def)
  from wf_cursor_difference[OF wf] a f show ?thesis by blast
qed

theorem cursor_distance_invariant_witness:
  "(1::nat) < 3
   \<and> run 3 [Push_back 1, Push_back 2, Push_front 0] (circular_deque_init 3 (0::int))
       = Some \<lparr>count = 3, back_index = 0, front_index = 2, array = [0, 1, 2], destroyed = []\<rparr>
   \<and> full 3 \<lparr>count = 3, back_index = 0, front_index = 2, array = [0, 1, 2::int], destroyed = []\<rparr>
   \<and> (int 0 - int 2) mod int 3 = (int 3 + 1) mod int 3
   \<and> begin_index 3 \<lparr>count = 3, back_index = 0, front_index = 2, array = [0, 1, 2::int], destroyed = []\<rparr> = 0
   \<and> end_index 3 \<lparr>count = 3, back_index = 0, front_index = 2, array = [0, 1, 2::int], destroyed = []\<rparr> = 0
   \<and> forward_iteration 3 7 \<lparr>count = 3, back_index = 0, front_index = 2, array = [0, 1, 2::int], destroyed = []\<rparr>
       = Some []"
proof -
  have n: "(1::nat) < 3" by simp
  have r: "run 3 [Push_back 1, Push_back 2, Push_front 0] (circular_deque_init 3 (0::int))
       = Some \<lparr>count = 3, back_index = 0, front_index = 2, array = [0, 1, 2], destroyed = []\<rparr>"
    by (simp add: ring_defs deque_defs replicate_numeral_Cons)
  have f: "full 3 \<lparr>count = 3, back_index = 0, front_index = 2, array = [0, 1, 2::int], destroyed = []\<rparr>"
    by (simp add: deque_defs)
  show ?thesis
    using n r f cursor_distance_invariant[OF n r, of 7]
    by (simp add: ring_defs)
qed

text \<open>
  \<^bold>\<open>Claim C10.\<close> In every state that is not full, \<open>push_back\<close> leaves \<open>front_index\<close> as it
  is and changes no slot of the array but the one at \<open>back_index\<close>, and \<open>push_front\<close> leaves
  \<open>back_index\<close> as it is and changes no slot but the one at \<open>front_index\<close>; neither calls a
  destructor. In every state that is not empty, \<open>pop_back\<close> leaves \<open>front_index\<close> and the
  array as they are and calls the destructor on the slot at \<open>back_index\<close> only, and
  \<open>pop_front\<close> leaves \<open>back_index\<close> and the array as they are and calls the destructor on
  the slot at \<open>front_index\<close> only.
\<close>

theorem push_pop_frame:
  "(\<not> full N d \<longrightarrow>
      (\<exists>d'. push_back N v d = Some d' \<and> front_index d' = front_index d \<and>
            length (array d') = length (array d) \<and>
            (\<forall>k. k \<noteq> back_index d \<longrightarrow> array d' ! k = array d ! k) \<and>
            destroyed d' = destroyed d) \<and>
      (\<exists>d'. push_front N v d = Some d' \<and> back_index d' = back_index d \<and>
            length (array d') = length (array d) \<and>
            (\<forall>k. k \<noteq> front_index d \<longrightarrow> array d' ! k = array d ! k) \<and>
            destroyed d' = destroyed d)) \<and>
   (\<not> empty_d d \<longrightarrow>
      (\<exists>d'. pop_back N d = Some d' \<and> front_index d' = front_index d \<and>
            array d' = array d \<and> destroyed d' = destroyed d @ [back_index d]) \<and>
      (\<exists>d'. pop_front N d = Some d' \<and> back_index d' = back_index d \<and>
            array d' = array d \<and> destroyed d' = destroyed d @ [front_index d]))"
  by (simp add: push_back_eq push_front_eq pop_back_eq pop_front_eq)

theorem push_pop_frame_witness:
  "\<not> full 3 \<lparr>count = 2, back_index = 2, front_index = 2, array = [0, 1, 2::int], destroyed = [0]\<rparr>
   \<and> \<not> empty_d \<lparr>count = 2, back_index = 2, front_index = 2, array = [0, 1, 2::int], destroyed = [0]\<rparr>
   \<and> push_back 3 9 \<lparr>count = 2, back_index = 2, front_index = 2, array = [0, 1, 2::int], destroyed = [0]\<rparr>
       = Some \<lparr>count = 3, back_index = 0, front_index = 2, array = [0, 1, 9], destroyed = [0]\<rparr>
   \<and> push_front 3 9 \<lparr>count = 2, back_index = 2, front_index = 2, array = [0, 1, 2::int], destroyed = [0]\<rparr>
       = Some \<lparr>count = 3, back_index = 2, front_index = 1, array = [0, 1, 9], destroyed = [0]\<rparr>
   \<and> pop_back 3 \<lparr>count = 2, back_index = 2, front_index = 2, array = [0, 1, 2::int], destroyed = [0]\<rparr>
       = Some \<lparr>count = 1, back_index = 1, front_index = 2, array = [0, 1, 2], destroyed = [0, 2]\<rparr>
   \<and> pop_front 3 \<lparr>count = 2, back_index = 2, front_index = 2, array = [0, 1, 2::int], destroyed = [0]\<rparr>
       = Some \<lparr>count = 1, back_index = 2, front_index = 0, array = [0, 1, 2], destroyed = [0, 2]\<rparr>"
  using push_pop_frame[of 3 "\<lparr>count = 2, back_index = 2, front_index = 2, array = [0, 1, 2::int], destroyed = [0]\<rparr>" 9]
  by (simp add: ring_defs deque_defs)

end
